theory Spec2Isabelle
  imports Main "HOL-Library.Word"
begin

section \<open>Platform parameters\<close>

text \<open>
  The logger is written in C for a FreeRTOS target. The sizes of the C types depend on
  the compiler's ABI and are not part of the repository, so the model takes them as a
  parameter. \<open>sizeof_log_msg\<close> is \<^verbatim>\<open>sizeof(log_msg_t)\<close>, the size of the message header
  in front of the flexible array member \<^verbatim>\<open>args_buffer\<close>, which is also the offset of
  that member. The other offsets are those of the header fields \<^verbatim>\<open>function_name\<close>,
  \<^verbatim>\<open>log_level\<close>, \<^verbatim>\<open>fmt_str\<close> and \<^verbatim>\<open>args_buffer_size\<close>; the first field,
  \<^verbatim>\<open>module_name\<close>, has offset 0.
\<close>

record abi =
  sizeof_int :: nat
  sizeof_long :: nat
  sizeof_long_long :: nat
  sizeof_size_t :: nat
  sizeof_ptrdiff_t :: nat
  sizeof_intmax_t :: nat
  sizeof_double :: nat
  sizeof_pointer :: nat
  sizeof_log_msg :: nat
  offsetof_function_name :: nat
  offsetof_log_level :: nat
  offsetof_fmt_str :: nat
  offsetof_args_buffer_size :: nat

text \<open>
  The default target of the repository (\<^verbatim>\<open>log_reconstruct.c\<close>: "ARM32, many others"):
  \<^verbatim>\<open>int\<close>, \<^verbatim>\<open>long\<close>, \<^verbatim>\<open>size_t\<close>, \<^verbatim>\<open>ptrdiff_t\<close> and pointers have 4 bytes,
  \<^verbatim>\<open>long long\<close>, \<^verbatim>\<open>intmax_t\<close> and \<^verbatim>\<open>double\<close> have 8, and the five fields of
  \<^verbatim>\<open>log_msg_t\<close> (two pointers, a padded \<^verbatim>\<open>uint8_t\<close>, a pointer, a \<^verbatim>\<open>size_t\<close>)
  lie at the offsets 0, 4, 8, 12 and 16 and take 20 bytes.
\<close>

definition ilp32 :: abi where
  "ilp32 = \<lparr> sizeof_int = 4, sizeof_long = 4, sizeof_long_long = 8, sizeof_size_t = 4,
             sizeof_ptrdiff_t = 4, sizeof_intmax_t = 8, sizeof_double = 8,
             sizeof_pointer = 4, sizeof_log_msg = 20,
             offsetof_function_name = 4, offsetof_log_level = 8, offsetof_fmt_str = 12,
             offsetof_args_buffer_size = 16 \<rparr>"

section \<open>Format Analyzer (\<^verbatim>\<open>log_format.c\<close>)\<close>

subsection \<open>C strings and the scanning pointer\<close>

text \<open>
  A format string is the list of its characters; the terminating NUL is not in the list.
  The scanning pointer \<^verbatim>\<open>p\<close> only moves forward, so it is modelled by the suffix of the
  string it points to: \<open>[]\<close> is the pointer at the terminating NUL. Reading \<^verbatim>\<open>*p\<close> there
  gives NUL. Incrementing the pointer there moves it behind the terminator; the next
  read through it is outside the string, which the model reports as \<open>Out_Of_Bounds\<close>.
  \<^verbatim>\<open>va_arg\<close> that reads behind the last argument of the call is reported as
  \<open>Bad_Va_Arg\<close>.
\<close>

datatype error = Out_Of_Bounds | Bad_Va_Arg

abbreviation NUL :: char where
  "NUL \<equiv> CHR 0x00"

fun deref :: "string \<Rightarrow> char" where
  "deref [] = NUL"
| "deref (c # cs) = c"

definition is_flag :: "char \<Rightarrow> bool" where
  "is_flag c = (c = CHR ''-'' \<or> c = CHR ''+'' \<or> c = CHR '' '' \<or> c = CHR ''#'' \<or> c = CHR ''0'')"

definition is_digit :: "char \<Rightarrow> bool" where
  "is_digit c = ((of_char (CHR ''0'') :: nat) \<le> of_char c \<and> (of_char c :: nat) \<le> of_char (CHR ''9''))"

text \<open>
  \<^verbatim>\<open>while (*p && (*p == '-' || *p == '+' || *p == ' ' || *p == '#' || *p == '0')) p++;\<close>
\<close>

fun skip_flags :: "string \<Rightarrow> string" where
  "skip_flags [] = []"
| "skip_flags (c # cs) = (if c \<noteq> NUL \<and> is_flag c then skip_flags cs else c # cs)"

text \<open>\<^verbatim>\<open>while (*p && (*p >= '0' && *p <= '9')) p++;\<close>\<close>

fun skip_digits :: "string \<Rightarrow> string" where
  "skip_digits [] = []"
| "skip_digits (c # cs) = (if c \<noteq> NUL \<and> is_digit c then skip_digits cs else c # cs)"

text \<open>
  The three loops after the \<^verbatim>\<open>%\<close>: flags, width, and a precision when \<^verbatim>\<open>*p == '.'\<close>.
  Both functions of \<^verbatim>\<open>log_format.c\<close> contain the same text for it.
\<close>

definition skip_format :: "string \<Rightarrow> string" where
  "skip_format p =
     (let p1 = skip_flags p;
          p2 = skip_digits p1
      in if deref p2 = CHR ''.'' then skip_digits (tl p2) else p2)"

subsection \<open>\<^verbatim>\<open>log_format_calculate_buffer_size\<close>\<close>

text \<open>
  The inner \<^verbatim>\<open>switch\<close> of the \<^verbatim>\<open>default\<close> branch: the bytes added for a conversion
  character without length modifier; any other character adds nothing.
\<close>

definition size_of_specifier :: "abi \<Rightarrow> char \<Rightarrow> nat" where
  "size_of_specifier A c =
     (if c = CHR ''d'' \<or> c = CHR ''i'' \<or> c = CHR ''o'' \<or> c = CHR ''u'' \<or> c = CHR ''x''
         \<or> c = CHR ''X'' \<or> c = CHR ''c'' then sizeof_int A
      else if c = CHR ''f'' \<or> c = CHR ''F'' \<or> c = CHR ''e'' \<or> c = CHR ''E'' \<or> c = CHR ''g''
         \<or> c = CHR ''G'' then sizeof_double A
      else if c = CHR ''s'' then sizeof_pointer A
      else if c = CHR ''p'' then sizeof_pointer A
      else if c = CHR ''n'' then sizeof_pointer A
      else 0)"

text \<open>
  The outer \<^verbatim>\<open>switch (*p)\<close>: the bytes added and the pointer after the switch. The
  branches for \<^verbatim>\<open>h\<close> and \<^verbatim>\<open>l\<close> look at \<^verbatim>\<open>*(p + 1)\<close> and step over one or two
  characters; \<^verbatim>\<open>z\<close>, \<^verbatim>\<open>t\<close>, \<^verbatim>\<open>j\<close> step over one; the default branch leaves \<^verbatim>\<open>p\<close>
  where it is.
\<close>

fun size_switch :: "abi \<Rightarrow> string \<Rightarrow> nat \<times> string" where
  "size_switch A [] = (size_of_specifier A NUL, [])"
| "size_switch A (c # r) =
     (if c = CHR ''h'' then
        (if deref r = CHR ''h'' then (sizeof_int A, tl r) else (sizeof_int A, r))
      else if c = CHR ''l'' then
        (if deref r = CHR ''l'' then (sizeof_long_long A, tl r) else (sizeof_long A, r))
      else if c = CHR ''z'' then (sizeof_size_t A, r)
      else if c = CHR ''t'' then (sizeof_ptrdiff_t A, r)
      else if c = CHR ''j'' then (sizeof_intmax_t A, r)
      else (size_of_specifier A c, c # r))"

lemma length_skip_flags: "length (skip_flags p) \<le> length p"
  by (induction p) auto

lemma length_skip_digits: "length (skip_digits p) \<le> length p"
  by (induction p) auto

lemma length_skip_format: "length (skip_format p) \<le> length p"
proof -
  have "length (skip_digits (tl (skip_digits (skip_flags p)))) \<le> length p"
    using length_skip_digits [of "tl (skip_digits (skip_flags p))"]
          length_skip_digits [of "skip_flags p"] length_skip_flags [of p]
    by simp
  moreover have "length (skip_digits (skip_flags p)) \<le> length p"
    using length_skip_digits [of "skip_flags p"] length_skip_flags [of p] by simp
  ultimately show ?thesis
    by (simp add: skip_format_def Let_def)
qed

lemma length_size_switch: "length (snd (size_switch A p)) \<le> length p"
  by (cases p) auto

lemma size_switch_suffix:
  "size_switch A (skip_format cs) = (n, d # q') \<Longrightarrow> length q' < length cs"
  using length_size_switch [of A "skip_format cs"] length_skip_format [of cs]
  by simp

text \<open>
  The \<^verbatim>\<open>while (*p)\<close> loop. After the conversion branch the common \<^verbatim>\<open>p++\<close> steps over
  the character the switch stopped at; when that is the terminating NUL the pointer
  leaves the string and the loop condition reads outside it.
\<close>

function calculate_loop :: "abi \<Rightarrow> string \<Rightarrow> nat \<Rightarrow> error + nat" where
  "calculate_loop A p buffer_size =
     (case p of
        [] \<Rightarrow> Inr buffer_size
      | c # cs \<Rightarrow>
          if c = NUL then Inr buffer_size
          else if c = CHR ''%'' \<and> deref cs \<noteq> CHR ''%'' then
            (case size_switch A (skip_format cs) of
               (n, q) \<Rightarrow>
                 (case q of
                    [] \<Rightarrow> Inl Out_Of_Bounds
                  | _ # q' \<Rightarrow> calculate_loop A q' (buffer_size + n)))
          else if c = CHR ''%'' \<and> deref cs = CHR ''%'' then calculate_loop A (tl cs) buffer_size
          else calculate_loop A cs buffer_size)"
  by pat_completeness auto
termination
  apply (relation "measure (\<lambda>(A, p, n). length p)")
     apply simp_all
  apply (metis size_switch_suffix less_Suc_eq)
  done

definition log_format_calculate_buffer_size :: "abi \<Rightarrow> string option \<Rightarrow> error + nat" where
  "log_format_calculate_buffer_size A fmt_str =
     (case fmt_str of
        None \<Rightarrow> Inr 0
      | Some f \<Rightarrow> calculate_loop A f 0)"

subsection \<open>\<^verbatim>\<open>log_format_copy_args_to_buffer\<close>\<close>

text \<open>
  The types the capture reads with \<^verbatim>\<open>va_arg\<close>. An argument of the variadic call is its
  type together with its object representation; the destination is a memory of bytes
  addressed by the offset from \<^verbatim>\<open>buffer\<close>, which also covers the bytes behind the
  capacity the caller states.
\<close>

datatype ctype =
  T_int | T_long | T_long_long | T_size_t | T_ptrdiff_t | T_intmax_t | T_double
  | T_char_ptr | T_void_ptr | T_int_ptr

fun sizeof :: "abi \<Rightarrow> ctype \<Rightarrow> nat" where
  "sizeof A T_int = sizeof_int A"
| "sizeof A T_long = sizeof_long A"
| "sizeof A T_long_long = sizeof_long_long A"
| "sizeof A T_size_t = sizeof_size_t A"
| "sizeof A T_ptrdiff_t = sizeof_ptrdiff_t A"
| "sizeof A T_intmax_t = sizeof_intmax_t A"
| "sizeof A T_double = sizeof_double A"
| "sizeof A T_char_ptr = sizeof_pointer A"
| "sizeof A T_void_ptr = sizeof_pointer A"
| "sizeof A T_int_ptr = sizeof_pointer A"

type_synonym byte = "8 word"
type_synonym argument = "ctype \<times> byte list"
type_synonym memory = "nat \<Rightarrow> byte"

text \<open>
  The arguments of a variadic call lie one after the other in the argument area of the
  call, each with the \<^verbatim>\<open>sizeof\<close> bytes of its type (an object representation given with
  fewer bytes is filled up with zero bytes, one given with more is cut). \<^verbatim>\<open>va_list\<close>
  is a pointer into that area: this is what \<^verbatim>\<open>log_reconstruct.c\<close> assumes of the
  default target, where it hands a buffer of packed arguments to \<^verbatim>\<open>vsnprintf\<close> as a
  \<^verbatim>\<open>va_list\<close>. \<^verbatim>\<open>va_start\<close> gives the bytes of the area; \<^verbatim>\<open>va_arg(args, T)\<close>
  reads the next \<^verbatim>\<open>sizeof(T)\<close> bytes, whatever the type of the argument the caller
  put there, and moves the pointer behind them. A read that leaves the area is reported
  as \<open>Bad_Va_Arg\<close>. Where the code reads further than the caller has passed, the bytes
  that lie in memory behind the last argument can be given as one more entry of the list.
\<close>

definition argument_bytes :: "abi \<Rightarrow> argument \<Rightarrow> byte list" where
  "argument_bytes A a = (case a of (T, v) \<Rightarrow> take (sizeof A T) (v @ replicate (sizeof A T) 0))"

definition va_start :: "abi \<Rightarrow> argument list \<Rightarrow> byte list" where
  "va_start A args = concat (map (argument_bytes A) args)"

definition va_arg :: "abi \<Rightarrow> byte list \<Rightarrow> ctype \<Rightarrow> error + (byte list \<times> byte list)" where
  "va_arg A ap T =
     (if length ap < sizeof A T then Inl Bad_Va_Arg
      else Inr (take (sizeof A T) ap, drop (sizeof A T) ap))"

text \<open>
  \<^verbatim>\<open>*(T *)(buf_ptr + off) = v\<close> writes the \<^verbatim>\<open>sizeof(T)\<close> bytes of \<open>v\<close> at the offsets
  \<open>off, \<dots>, off + sizeof(T) - 1\<close> and no other.
\<close>

definition store :: "abi \<Rightarrow> memory \<Rightarrow> nat \<Rightarrow> ctype \<Rightarrow> byte list \<Rightarrow> memory" where
  "store A m off T v =
     (\<lambda>i. if off \<le> i \<and> i < off + sizeof A T
          then (if i - off < length v then v ! (i - off) else 0)
          else m i)"

text \<open>
  The state of the capture loop: \<^verbatim>\<open>bytes_written\<close>, the rest of the argument area
  and the destination memory. One capture is
  \<^verbatim>\<open>*(T *)(buf_ptr + bytes_written) = va_arg(args, T); bytes_written += sizeof(T);\<close>
\<close>

type_synonym capture_state = "nat \<times> byte list \<times> memory"

definition capture :: "abi \<Rightarrow> ctype \<Rightarrow> capture_state \<Rightarrow> error + capture_state" where
  "capture A T st =
     (case st of (bytes_written, args, m) \<Rightarrow>
        (case va_arg A args T of
           Inl e \<Rightarrow> Inl e
         | Inr (v, args') \<Rightarrow> Inr (bytes_written + sizeof A T, args', store A m bytes_written T v)))"

text \<open>The inner \<^verbatim>\<open>switch\<close> of the capture: the type read for a conversion character.\<close>

definition type_of_specifier :: "char \<Rightarrow> ctype option" where
  "type_of_specifier c =
     (if c = CHR ''d'' \<or> c = CHR ''i'' \<or> c = CHR ''o'' \<or> c = CHR ''u'' \<or> c = CHR ''x''
         \<or> c = CHR ''X'' \<or> c = CHR ''c'' then Some T_int
      else if c = CHR ''f'' \<or> c = CHR ''F'' \<or> c = CHR ''e'' \<or> c = CHR ''E'' \<or> c = CHR ''g''
         \<or> c = CHR ''G'' then Some T_double
      else if c = CHR ''s'' then Some T_char_ptr
      else if c = CHR ''p'' then Some T_void_ptr
      else if c = CHR ''n'' then Some T_int_ptr
      else None)"

text \<open>The outer \<^verbatim>\<open>switch (*p)\<close> of the capture: the new state and the pointer after it.\<close>

fun copy_switch :: "abi \<Rightarrow> string \<Rightarrow> capture_state \<Rightarrow> error + (capture_state \<times> string)" where
  "copy_switch A [] st = Inr (st, [])"
| "copy_switch A (c # r) st =
     (if c = CHR ''h'' then
        (if deref r = CHR ''h'' then map_sum id (\<lambda>st'. (st', tl r)) (capture A T_int st)
         else map_sum id (\<lambda>st'. (st', r)) (capture A T_int st))
      else if c = CHR ''l'' then
        (if deref r = CHR ''l'' then map_sum id (\<lambda>st'. (st', tl r)) (capture A T_long_long st)
         else map_sum id (\<lambda>st'. (st', r)) (capture A T_long st))
      else if c = CHR ''z'' then map_sum id (\<lambda>st'. (st', r)) (capture A T_size_t st)
      else if c = CHR ''t'' then map_sum id (\<lambda>st'. (st', r)) (capture A T_ptrdiff_t st)
      else if c = CHR ''j'' then map_sum id (\<lambda>st'. (st', r)) (capture A T_intmax_t st)
      else
        (case type_of_specifier c of
           None \<Rightarrow> Inr (st, c # r)
         | Some T \<Rightarrow> map_sum id (\<lambda>st'. (st', c # r)) (capture A T st)))"

lemma length_copy_switch:
  "copy_switch A p st = Inr (st', q) \<Longrightarrow> length q \<le> length p"
  by (cases p) (auto split: if_splits option.splits sum.splits simp: map_sum_def)

lemma copy_switch_suffix:
  "copy_switch A (skip_format cs) st = Inr (st', d # q') \<Longrightarrow> length q' < length cs"
  using length_copy_switch [of A "skip_format cs" st st' "d # q'"] length_skip_format [of cs]
  by simp

text \<open>
  The loop \<^verbatim>\<open>while (*p && bytes_written < buffer_size)\<close>. The capacity is compared
  before a conversion is handled; the stores of the conversion are not compared with it.
\<close>

function copy_loop :: "abi \<Rightarrow> nat \<Rightarrow> string \<Rightarrow> capture_state \<Rightarrow> error + (nat \<times> memory)" where
  "copy_loop A buffer_size p st =
     (case st of (bytes_written, args, m) \<Rightarrow>
        (case p of
           [] \<Rightarrow> Inr (bytes_written, m)
         | c # cs \<Rightarrow>
             if \<not> (c \<noteq> NUL \<and> bytes_written < buffer_size) then Inr (bytes_written, m)
             else if c = CHR ''%'' \<and> deref cs \<noteq> CHR ''%'' then
               (case copy_switch A (skip_format cs) st of
                  Inl e \<Rightarrow> Inl e
                | Inr (st', q) \<Rightarrow>
                    (case q of
                       [] \<Rightarrow> Inl Out_Of_Bounds
                     | _ # q' \<Rightarrow> copy_loop A buffer_size q' st'))
             else if c = CHR ''%'' \<and> deref cs = CHR ''%'' then copy_loop A buffer_size (tl cs) st
             else copy_loop A buffer_size cs st))"
  by pat_completeness auto
termination
  apply (relation "measure (\<lambda>(A, n, p, st). length p)")
     apply simp_all
  apply (metis copy_switch_suffix less_Suc_eq)
  done

text \<open>
  \<^verbatim>\<open>buffer\<close> and \<^verbatim>\<open>fmt_str\<close> may be null pointers (\<open>None\<close>). \<open>args\<close> are the
  variadic arguments of the log call, which reach the function as the \<^verbatim>\<open>va_list\<close> that
  \<^verbatim>\<open>va_start\<close> made of them. The result is the returned byte count and the
  destination memory after the call.
\<close>

definition log_format_copy_args_to_buffer ::
  "abi \<Rightarrow> memory option \<Rightarrow> nat \<Rightarrow> string option \<Rightarrow> argument list \<Rightarrow> error + (nat \<times> memory option)" where
  "log_format_copy_args_to_buffer A buffer buffer_size fmt_str args =
     (case (buffer, fmt_str) of
        (Some m, Some f) \<Rightarrow>
          if buffer_size = 0 then Inr (0, buffer)
          else (case copy_loop A buffer_size f (0, va_start A args, m) of
                  Inl e \<Rightarrow> Inl e
                | Inr (bytes_written, m') \<Rightarrow> Inr (bytes_written, Some m'))
      | _ \<Rightarrow> Inr (0, buffer))"

subsection \<open>Conversion specifications\<close>

text \<open>
  The reading of a format string that the specification describes: every \<^verbatim>\<open>%\<close> that
  is not the first half of \<^verbatim>\<open>%%\<close> opens a conversion specification, made of optional
  flags, a numeric width, an optional \<^verbatim>\<open>.precision\<close>, an optional length modifier and
  the conversion character. \<open>conversions f\<close> lists them in order. It is \<open>None\<close> when
  \<open>f\<close> is not a well-formed C format string: a NUL inside the list, or a conversion
  specification cut off by the end of the string.
\<close>

datatype length_modifier = No_modifier | Mod_hh | Mod_h | Mod_l | Mod_ll | Mod_z | Mod_t | Mod_j

type_synonym conversion = "length_modifier \<times> char"

definition read_precision :: "string \<Rightarrow> string" where
  "read_precision p =
     (case p of
        [] \<Rightarrow> []
      | c # r \<Rightarrow> if c = CHR ''.'' then dropWhile is_digit r else c # r)"

definition read_modifier :: "string \<Rightarrow> length_modifier \<times> string" where
  "read_modifier p =
     (case p of
        [] \<Rightarrow> (No_modifier, [])
      | c # r \<Rightarrow>
          if c = CHR ''h'' then
            (case r of
               [] \<Rightarrow> (Mod_h, [])
             | c' # r' \<Rightarrow> if c' = CHR ''h'' then (Mod_hh, r') else (Mod_h, r))
          else if c = CHR ''l'' then
            (case r of
               [] \<Rightarrow> (Mod_l, [])
             | c' # r' \<Rightarrow> if c' = CHR ''l'' then (Mod_ll, r') else (Mod_l, r))
          else if c = CHR ''z'' then (Mod_z, r)
          else if c = CHR ''t'' then (Mod_t, r)
          else if c = CHR ''j'' then (Mod_j, r)
          else (No_modifier, p))"

definition read_conversion :: "string \<Rightarrow> length_modifier \<times> string" where
  "read_conversion p = read_modifier (read_precision (dropWhile is_digit (dropWhile is_flag p)))"

lemma length_read_precision: "length (read_precision p) \<le> length p"
  using length_dropWhile_le [of is_digit "tl p"]
  by (cases p) (auto simp: read_precision_def)

lemma length_read_modifier: "length (snd (read_modifier p)) \<le> length p"
  by (cases p) (auto simp: read_modifier_def split: list.splits)

lemma length_read_conversion: "length (snd (read_conversion p)) \<le> length p"
proof -
  have "length (read_precision (dropWhile is_digit (dropWhile is_flag p))) \<le> length p"
    using length_read_precision [of "dropWhile is_digit (dropWhile is_flag p)"]
          length_dropWhile_le [of is_digit "dropWhile is_flag p"]
          length_dropWhile_le [of is_flag p]
    by linarith
  then show ?thesis
    using length_read_modifier [of "read_precision (dropWhile is_digit (dropWhile is_flag p))"]
    by (simp add: read_conversion_def)
qed

lemma read_conversion_suffix:
  "read_conversion cs = (m, x # q') \<Longrightarrow> length q' < length cs"
  using length_read_conversion [of cs] by simp

function conversions :: "string \<Rightarrow> conversion list option" where
  "conversions f =
     (case f of
        [] \<Rightarrow> Some []
      | c # cs \<Rightarrow>
          if c = NUL then None
          else if c \<noteq> CHR ''%'' then conversions cs
          else
            (case cs of
               [] \<Rightarrow> None
             | c' # r \<Rightarrow>
                 if c' = CHR ''%'' then conversions r
                 else
                   (case read_conversion cs of
                      (m, q) \<Rightarrow>
                        (case q of
                           [] \<Rightarrow> None
                         | x # q' \<Rightarrow>
                             if x = NUL then None
                             else map_option ((#) (m, x)) (conversions q')))))"
  by pat_completeness auto
termination
proof (relation "measure length", goal_cases)
  case 1
  show ?case by simp
next
  case (2 f c cs)
  then show ?case by simp
next
  case (3 f c cs c' r)
  then show ?case by simp
next
  case (4 f c cs c' r m q d q')
  then have "read_conversion cs = (m, d # q')" by simp
  then have "length q' < length cs" by (rule read_conversion_suffix)
  with 4 show ?case by simp
qed

text \<open>
  The type of the argument a conversion specification captures, as the branches of the
  Analyzer select it: by the length modifier when there is one, by the conversion
  character otherwise. A conversion character the Analyzer does not know captures nothing.
\<close>

fun argument_type :: "conversion \<Rightarrow> ctype option" where
  "argument_type (No_modifier, c) = type_of_specifier c"
| "argument_type (Mod_hh, c) = Some T_int"
| "argument_type (Mod_h, c) = Some T_int"
| "argument_type (Mod_l, c) = Some T_long"
| "argument_type (Mod_ll, c) = Some T_long_long"
| "argument_type (Mod_z, c) = Some T_size_t"
| "argument_type (Mod_t, c) = Some T_ptrdiff_t"
| "argument_type (Mod_j, c) = Some T_intmax_t"

definition argument_size :: "abi \<Rightarrow> conversion \<Rightarrow> nat" where
  "argument_size A cv = (case argument_type cv of None \<Rightarrow> 0 | Some T \<Rightarrow> sizeof A T)"

definition argument_types :: "string \<Rightarrow> ctype list option" where
  "argument_types f = map_option (List.map_filter argument_type) (conversions f)"

section \<open>Properties of the Format Analyzer\<close>

subsection \<open>The loops, one step at a time\<close>

declare calculate_loop.simps [simp del]
declare copy_loop.simps [simp del]
declare conversions.simps [simp del]

lemma calculate_loop_Nil: "calculate_loop A [] n = Inr n"
  by (simp add: calculate_loop.simps [of A "[]"])

lemma calculate_loop_Cons:
  "calculate_loop A (c # cs) n =
     (if c = NUL then Inr n
      else if c = CHR ''%'' \<and> deref cs \<noteq> CHR ''%'' then
        (case size_switch A (skip_format cs) of
           (k, q) \<Rightarrow> (case q of [] \<Rightarrow> Inl Out_Of_Bounds | _ # q' \<Rightarrow> calculate_loop A q' (n + k)))
      else if c = CHR ''%'' \<and> deref cs = CHR ''%'' then calculate_loop A (tl cs) n
      else calculate_loop A cs n)"
  by (simp add: calculate_loop.simps [of A "c # cs"])

lemma copy_loop_Nil: "copy_loop A cap [] (bw, args, m) = Inr (bw, m)"
  by (simp add: copy_loop.simps [of A cap "[]"])

lemma copy_loop_Cons:
  "copy_loop A cap (c # cs) (bw, args, m) =
     (if \<not> (c \<noteq> NUL \<and> bw < cap) then Inr (bw, m)
      else if c = CHR ''%'' \<and> deref cs \<noteq> CHR ''%'' then
        (case copy_switch A (skip_format cs) (bw, args, m) of
           Inl e \<Rightarrow> Inl e
         | Inr (st', q) \<Rightarrow> (case q of [] \<Rightarrow> Inl Out_Of_Bounds | _ # q' \<Rightarrow> copy_loop A cap q' st'))
      else if c = CHR ''%'' \<and> deref cs = CHR ''%'' then copy_loop A cap (tl cs) (bw, args, m)
      else copy_loop A cap cs (bw, args, m))"
  by (simp add: copy_loop.simps [of A cap "c # cs"])

lemma conversions_Nil: "conversions [] = Some []"
  by (simp add: conversions.simps [of "[]"])

lemma conversions_Cons:
  "conversions (c # cs) =
     (if c = NUL then None
      else if c \<noteq> CHR ''%'' then conversions cs
      else
        (case cs of
           [] \<Rightarrow> None
         | c' # r \<Rightarrow>
             if c' = CHR ''%'' then conversions r
             else
               (case read_conversion cs of
                  (m, q) \<Rightarrow>
                    (case q of
                       [] \<Rightarrow> None
                     | x # q' \<Rightarrow>
                         if x = NUL then None
                         else map_option ((#) (m, x)) (conversions q')))))"
  by (simp add: conversions.simps [of "c # cs"])

subsection \<open>The scanner of the code reads conversion specifications\<close>

lemma skip_flags_dropWhile: "skip_flags p = dropWhile is_flag p"
  by (induction p) (auto simp: is_flag_def)

lemma skip_digits_dropWhile: "skip_digits p = dropWhile is_digit p"
  by (induction p) (auto simp: is_digit_def)

lemma read_precision_deref:
  "read_precision q = (if deref q = CHR ''.'' then dropWhile is_digit (tl q) else q)"
  by (cases q) (simp_all add: read_precision_def)

lemma skip_format_read_precision:
  "skip_format p = read_precision (dropWhile is_digit (dropWhile is_flag p))"
  by (simp only: skip_format_def Let_def read_precision_deref skip_flags_dropWhile
      skip_digits_dropWhile)

lemma size_of_specifier_type:
  "size_of_specifier A c = (case type_of_specifier c of None \<Rightarrow> 0 | Some T \<Rightarrow> sizeof A T)"
  by (simp add: size_of_specifier_def type_of_specifier_def)

lemma size_switch_read_modifier:
  "size_switch A p = (case read_modifier p of (m, q) \<Rightarrow> (argument_size A (m, deref q), q))"
proof (cases p)
  case Nil
  then show ?thesis
    by (simp add: read_modifier_def argument_size_def size_of_specifier_type)
next
  case (Cons c r)
  then show ?thesis
    by (cases r) (simp_all add: read_modifier_def argument_size_def size_of_specifier_type)
qed

lemma copy_switch_read_modifier:
  "copy_switch A p st =
     (case read_modifier p of
        (m, q) \<Rightarrow>
          (case argument_type (m, deref q) of
             None \<Rightarrow> Inr (st, q)
           | Some T \<Rightarrow> map_sum id (\<lambda>st'. (st', q)) (capture A T st)))"
proof (cases p)
  case Nil
  then show ?thesis
    by (simp add: read_modifier_def type_of_specifier_def)
next
  case (Cons c r)
  then show ?thesis
    by (cases r) (simp_all add: read_modifier_def split: option.splits)
qed

lemma size_switch_conversion:
  assumes "read_conversion cs = (m, x # q')"
  shows "size_switch A (skip_format cs) = (argument_size A (m, x), x # q')"
  using assms
  by (simp add: size_switch_read_modifier skip_format_read_precision read_conversion_def)

lemma copy_switch_conversion:
  assumes "read_conversion cs = (m, x # q')"
  shows "copy_switch A (skip_format cs) st =
           (case argument_type (m, x) of
              None \<Rightarrow> Inr (st, x # q')
            | Some T \<Rightarrow> map_sum id (\<lambda>st'. (st', x # q')) (capture A T st))"
  using assms
  by (simp add: copy_switch_read_modifier skip_format_read_precision read_conversion_def)

text \<open>
  On a well-formed format string the size loop stays inside the string and adds up the
  sizes of the captured arguments.
\<close>

lemma calculate_loop_conversions:
  "conversions f = Some cvs \<Longrightarrow>
     calculate_loop A f n = Inr (n + sum_list (map (argument_size A) cvs))"
proof (induction f arbitrary: cvs n rule: measure_induct_rule [of length])
  case (less f)
  show ?case
  proof (cases f)
    case Nil
    with less.prems show ?thesis
      by (simp add: conversions_Nil calculate_loop_Nil)
  next
    case (Cons c cs)
    note f = Cons
    from less.prems f have c0: "c \<noteq> NUL"
      by (auto simp: conversions_Cons)
    show ?thesis
    proof (cases "c = CHR ''%''")
      case False
      with less.prems f c0 have "conversions cs = Some cvs"
        by (simp add: conversions_Cons)
      then have "calculate_loop A cs n = Inr (n + sum_list (map (argument_size A) cvs))"
        using less.IH [of cs cvs n] f by simp
      with False c0 f show ?thesis
        by (simp add: calculate_loop_Cons)
    next
      case True
      note pct = True
      show ?thesis
      proof (cases cs)
        case Nil
        with less.prems f pct show ?thesis
          by (simp add: conversions_Cons)
      next
        case (Cons c' r)
        note cs = Cons
        show ?thesis
        proof (cases "c' = CHR ''%''")
          case True
          with less.prems f pct cs have "conversions r = Some cvs"
            by (simp add: conversions_Cons)
          then have "calculate_loop A r n = Inr (n + sum_list (map (argument_size A) cvs))"
            using less.IH [of r cvs n] f cs by simp
          with True pct f cs show ?thesis
            by (simp add: calculate_loop_Cons)
        next
          case False
          obtain m q where rc: "read_conversion cs = (m, q)"
            by (cases "read_conversion cs") auto
          from less.prems f pct cs False rc
          obtain x q' cvs' where q: "q = x # q'" and x0: "x \<noteq> NUL"
            and tl: "conversions q' = Some cvs'" and cvs: "cvs = (m, x) # cvs'"
            by (auto simp: conversions_Cons split: list.splits if_splits)
          have len: "length q' < length f"
            using read_conversion_suffix [of cs m x q'] rc q f by simp
          have sw: "size_switch A (skip_format cs) = (argument_size A (m, x), x # q')"
            using rc q by (simp add: size_switch_conversion)
          have "calculate_loop A q' (n + argument_size A (m, x)) =
                  Inr (n + argument_size A (m, x) + sum_list (map (argument_size A) cvs'))"
            using less.IH [OF len tl] .
          with False pct f cs sw cvs show ?thesis
            by (simp add: calculate_loop_Cons)
        qed
      qed
    qed
  qed
qed

text \<open>
  The byte counts of the Analyzer are natural numbers. In the code they are \<^verbatim>\<open>size_t\<close>
  sums, which cannot wrap around: the sum for a format string is at most the largest
  argument size times the length of the string.
\<close>

lemma size_switch_bound:
  assumes "\<forall>T. sizeof A T \<le> M"
  shows "fst (size_switch A p) \<le> M"
proof -
  have "argument_size A cv \<le> M" for cv
    using assms by (simp add: argument_size_def split: option.splits)
  then show ?thesis
    by (simp add: size_switch_read_modifier split: prod.splits)
qed

lemma calculate_loop_bound:
  assumes "\<forall>T. sizeof A T \<le> M"
  shows "calculate_loop A p acc = Inr n \<Longrightarrow> n \<le> acc + M * length p"
proof (induction p arbitrary: acc rule: measure_induct_rule [of length])
  case (less p)
  show ?case
  proof (cases p)
    case Nil
    with less.prems show ?thesis by (simp add: calculate_loop_Nil)
  next
    case (Cons c cs)
    note p = Cons
    show ?thesis
    proof (cases "c = NUL")
      case True
      with less.prems p show ?thesis by (simp add: calculate_loop_Cons)
    next
      case False
      note c0 = False
      show ?thesis
      proof (cases "c = CHR ''%''")
        case False
        with less.prems p c0 have "calculate_loop A cs acc = Inr n"
          by (simp add: calculate_loop_Cons)
        from less.IH [OF _ this] p show ?thesis by simp
      next
        case True
        note pct = True
        show ?thesis
        proof (cases "deref cs = CHR ''%''")
          case True
          with less.prems p pct have "calculate_loop A (tl cs) acc = Inr n"
            by (simp add: calculate_loop_Cons)
          moreover have "length (tl cs) < length p"
            using p by simp
          ultimately have "n \<le> acc + M * length (tl cs)"
            using less.IH by blast
          also have "\<dots> \<le> acc + M * length p"
          proof -
            have "length (tl cs) \<le> length p" using p by simp
            then have "M * length (tl cs) \<le> M * length p" by (rule mult_le_mono2)
            then show ?thesis by simp
          qed
          finally show ?thesis .
        next
          case False
          obtain k q where sw: "size_switch A (skip_format cs) = (k, q)"
            by (cases "size_switch A (skip_format cs)") auto
          with less.prems p pct False
          obtain d q' where q: "q = d # q'" and run: "calculate_loop A q' (acc + k) = Inr n"
            by (auto simp: calculate_loop_Cons split: list.splits)
          have len: "length q' < length cs"
            using sw q by (simp add: size_switch_suffix)
          have k: "k \<le> M"
            using size_switch_bound [OF assms, of "skip_format cs"] sw by simp
          from len p have "length q' < length p" by simp
          from less.IH [OF this run] have "n \<le> acc + k + M * length q'" .
          also have "\<dots> \<le> acc + M * Suc (length q')"
            using k by simp
          also have "\<dots> \<le> acc + M * length p"
          proof -
            have "Suc (length q') \<le> length p" using len p by simp
            then have "M * Suc (length q') \<le> M * length p" by (rule mult_le_mono2)
            then show ?thesis by simp
          qed
          finally show ?thesis .
        qed
      qed
    qed
  qed
qed

lemma calculate_buffer_size_bound:
  "log_format_calculate_buffer_size ilp32 (Some f) = Inr n \<Longrightarrow> n \<le> 8 * length f"
proof -
  have "\<forall>T. sizeof ilp32 T \<le> 8"
  proof
    fix T show "sizeof ilp32 T \<le> 8"
      by (cases T) (simp_all add: ilp32_def)
  qed
  from calculate_loop_bound [OF this, of f 0 n] show
    "log_format_calculate_buffer_size ilp32 (Some f) = Inr n \<Longrightarrow> n \<le> 8 * length f"
    by (simp add: log_format_calculate_buffer_size_def)
qed

lemma store_outside: "i < off \<or> off + sizeof A T \<le> i \<Longrightarrow> store A m off T v i = m i"
  by (auto simp: store_def)

lemma store_inside:
  "off \<le> i \<Longrightarrow> i < off + sizeof A T \<Longrightarrow> sizeof A T \<le> length ap \<Longrightarrow>
     store A m off T (take (sizeof A T) ap) i = ap ! (i - off)"
proof -
  assume "off \<le> i" and "i < off + sizeof A T" and "sizeof A T \<le> length ap"
  moreover from this have "i - off < sizeof A T" by arith
  ultimately show ?thesis
    by (simp add: store_def)
qed

lemma capture_enough:
  "sizeof A T \<le> length ap \<Longrightarrow>
     capture A T (bw, ap, m) =
       Inr (bw + sizeof A T, drop (sizeof A T) ap, store A m bw T (take (sizeof A T) ap))"
  by (simp add: capture_def va_arg_def)

lemma capture_advances:
  "capture A T (bw, ap, m) = Inr (bw', ap', m') \<Longrightarrow>
     bw' = bw + sizeof A T \<and> ap' = drop (sizeof A T) ap
     \<and> m' = store A m bw T (take (sizeof A T) ap)"
  by (auto simp: capture_def va_arg_def split: if_splits)

lemma length_argument_bytes: "length (argument_bytes A a) = sizeof A (fst a)"
  by (cases a) (simp add: argument_bytes_def)

lemma length_va_start: "length (va_start A args) = sum_list (map (sizeof A) (map fst args))"
  by (induction args) (simp_all add: va_start_def length_argument_bytes)

text \<open>The size loop only adds to the count it started with.\<close>

lemma calculate_loop_mono:
  "calculate_loop A p acc = Inr n \<Longrightarrow> acc \<le> n"
proof (induction p arbitrary: acc rule: measure_induct_rule [of length])
  case (less p)
  show ?case
  proof (cases p)
    case Nil
    with less.prems show ?thesis by (simp add: calculate_loop_Nil)
  next
    case (Cons c cs)
    note p = Cons
    show ?thesis
    proof (cases "c = NUL")
      case True
      with less.prems p show ?thesis by (simp add: calculate_loop_Cons)
    next
      case False
      note c0 = False
      show ?thesis
      proof (cases "c = CHR ''%''")
        case False
        with less.prems p c0 have "calculate_loop A cs acc = Inr n"
          by (simp add: calculate_loop_Cons)
        from less.IH [OF _ this] p show ?thesis by simp
      next
        case True
        note pct = True
        show ?thesis
        proof (cases "deref cs = CHR ''%''")
          case True
          with less.prems p pct have "calculate_loop A (tl cs) acc = Inr n"
            by (simp add: calculate_loop_Cons)
          moreover have "length (tl cs) < length p"
            using p by simp
          ultimately show ?thesis
            using less.IH by blast
        next
          case False
          obtain k q where sw: "size_switch A (skip_format cs) = (k, q)"
            by (cases "size_switch A (skip_format cs)") auto
          with less.prems p pct False
          obtain d q' where q: "q = d # q'" and run: "calculate_loop A q' (acc + k) = Inr n"
            by (auto simp: calculate_loop_Cons split: list.splits)
          have "length q' < length cs"
            using sw q by (simp add: size_switch_suffix)
          with p have "length q' < length p" by simp
          from less.IH [OF this run] show ?thesis by simp
        qed
      qed
    qed
  qed
qed

text \<open>
  The capture loop follows the size loop. When the size loop, started with the count
  \<open>bw\<close>, returns \<open>n\<close> for a format string and the argument area holds the \<open>n - bw\<close> bytes
  that remain to be read, the capture loop returns for every capacity; the count \<open>w\<close> it
  returns lies between \<open>bw\<close> and \<open>n\<close>, it is \<open>n\<close> when the capacity admits that, it has
  advanced when there was room and something to capture, the bytes at the offsets from
  \<open>bw\<close> up to \<open>w\<close> are the next bytes of the argument area in their order, and every other
  byte of the destination is unchanged.
\<close>

lemma copy_loop_follows:
  "calculate_loop A p bw = Inr n \<Longrightarrow> n \<le> bw + length ap \<Longrightarrow>
     \<exists>w m'. copy_loop A cap p (bw, ap, m) = Inr (w, m')
       \<and> bw \<le> w \<and> w \<le> n
       \<and> (n \<le> cap \<longrightarrow> w = n)
       \<and> (bw < cap \<and> bw < n \<longrightarrow> bw < w)
       \<and> (\<forall>i. i < bw \<or> w \<le> i \<longrightarrow> m' i = m i)
       \<and> (\<forall>i. bw \<le> i \<and> i < w \<longrightarrow> m' i = ap ! (i - bw))"
proof (induction p arbitrary: bw ap m rule: measure_induct_rule [of length])
  case (less p)
  let ?P = "\<lambda>r bw ap m.
     \<exists>w m'. r = Inr (w, m') \<and> bw \<le> w \<and> w \<le> n
       \<and> (n \<le> cap \<longrightarrow> w = n)
       \<and> (bw < cap \<and> bw < n \<longrightarrow> bw < w)
       \<and> (\<forall>i. i < bw \<or> w \<le> i \<longrightarrow> m' i = m i)
       \<and> (\<forall>i. bw \<le> i \<and> i < w \<longrightarrow> m' i = ap ! (i - bw))"
  have mono: "bw \<le> n"
    using less.prems(1) by (rule calculate_loop_mono)
  have stop: "?P (Inr (bw, m)) bw ap m" if "\<not> bw < cap \<or> n = bw"
    using that mono by auto
  show ?case
  proof (cases p)
    case Nil
    with less.prems(1) have "n = bw"
      by (simp add: calculate_loop_Nil)
    with stop Nil show ?thesis
      by (simp add: copy_loop_Nil)
  next
    case (Cons c cs)
    note p = Cons
    show ?thesis
    proof (cases "c = NUL")
      case True
      with less.prems(1) p have "n = bw"
        by (simp add: calculate_loop_Cons)
      with stop True p show ?thesis
        by (simp add: copy_loop_Cons)
    next
      case False
      note c0 = False
      show ?thesis
      proof (cases "bw < cap")
        case False
        with stop p show ?thesis
          by (simp add: copy_loop_Cons)
      next
        case True
        note room = True
        show ?thesis
        proof (cases "c = CHR ''%''")
          case False
          with less.prems(1) p c0 have "calculate_loop A cs bw = Inr n"
            by (simp add: calculate_loop_Cons)
          then have "?P (copy_loop A cap cs (bw, ap, m)) bw ap m"
            using less.IH [of cs bw ap m] less.prems(2) p by simp
          with False c0 p room show ?thesis
            by (simp add: copy_loop_Cons)
        next
          case True
          note pct = True
          show ?thesis
          proof (cases "deref cs = CHR ''%''")
            case True
            with less.prems(1) p pct have "calculate_loop A (tl cs) bw = Inr n"
              by (simp add: calculate_loop_Cons)
            moreover have "length (tl cs) < length p"
              using p by simp
            ultimately have "?P (copy_loop A cap (tl cs) (bw, ap, m)) bw ap m"
              using less.IH [of "tl cs" bw ap m] less.prems(2) by simp
            with True pct c0 p room show ?thesis
              by (simp add: copy_loop_Cons)
          next
            case False
            obtain md q where rm: "read_modifier (skip_format cs) = (md, q)"
              by (cases "read_modifier (skip_format cs)") auto
            have sw: "size_switch A (skip_format cs) = (argument_size A (md, deref q), q)"
              using rm by (simp add: size_switch_read_modifier)
            with less.prems(1) p pct False c0
            obtain d q' where q: "q = d # q'"
              and run: "calculate_loop A q' (bw + argument_size A (md, d)) = Inr n"
              by (auto simp: calculate_loop_Cons split: list.splits)
            have "length q' < length cs"
              using sw q by (simp add: size_switch_suffix)
            with p have len: "length q' < length p" by simp
            have cw: "copy_switch A (skip_format cs) (bw, ap, m) =
                (case argument_type (md, d) of
                   None \<Rightarrow> Inr ((bw, ap, m), d # q')
                 | Some T \<Rightarrow> map_sum id (\<lambda>st'. (st', d # q')) (capture A T (bw, ap, m)))"
              using rm q by (simp add: copy_switch_read_modifier)
            have unfold: "copy_loop A cap p (bw, ap, m) =
                (case copy_switch A (skip_format cs) (bw, ap, m) of
                   Inl e \<Rightarrow> Inl e
                 | Inr (st', q) \<Rightarrow>
                     (case q of [] \<Rightarrow> Inl Out_Of_Bounds | _ # q' \<Rightarrow> copy_loop A cap q' st'))"
              using False pct c0 p room by (simp add: copy_loop_Cons)
            show ?thesis
            proof (cases "argument_type (md, d)")
              case None
              then have "calculate_loop A q' bw = Inr n"
                using run by (simp add: argument_size_def)
              from less.IH [OF len this less.prems(2), of m]
              have "?P (copy_loop A cap q' (bw, ap, m)) bw ap m" .
              with None cw unfold show ?thesis
                by simp
            next
              case (Some T)
              define k where "k = sizeof A T"
              from Some run have run': "calculate_loop A q' (bw + k) = Inr n"
                by (simp add: argument_size_def k_def)
              then have kn: "bw + k \<le> n"
                by (rule calculate_loop_mono)
              with less.prems(2) have enough: "k \<le> length ap"
                by simp
              let ?m1 = "store A m bw T (take k ap)"
              have cap1: "capture A T (bw, ap, m) = Inr (bw + k, drop k ap, ?m1)"
                using enough unfolding k_def by (rule capture_enough)
              have rest: "n \<le> bw + k + length (drop k ap)"
                using less.prems(2) enough by simp
              from less.IH [OF len run' rest, of ?m1]
              obtain w m' where res: "copy_loop A cap q' (bw + k, drop k ap, ?m1) = Inr (w, m')"
                and lo: "bw + k \<le> w" and hi: "w \<le> n"
                and full: "n \<le> cap \<longrightarrow> w = n"
                and adv: "bw + k < cap \<and> bw + k < n \<longrightarrow> bw + k < w"
                and frame: "\<forall>i. i < bw + k \<or> w \<le> i \<longrightarrow> m' i = ?m1 i"
                and layout: "\<forall>i. bw + k \<le> i \<and> i < w \<longrightarrow> m' i = drop k ap ! (i - (bw + k))"
                by blast
              have result: "copy_loop A cap p (bw, ap, m) = Inr (w, m')"
                using unfold cw Some cap1 res by simp
              have fr: "\<forall>i. i < bw \<or> w \<le> i \<longrightarrow> m' i = m i"
              proof (intro allI impI)
                fix i assume i: "i < bw \<or> w \<le> i"
                with lo have "m' i = ?m1 i" using frame by auto
                moreover from i lo have "?m1 i = m i"
                  unfolding k_def by (intro store_outside) auto
                ultimately show "m' i = m i" by simp
              qed
              have lay: "\<forall>i. bw \<le> i \<and> i < w \<longrightarrow> m' i = ap ! (i - bw)"
              proof (intro allI impI)
                fix i assume i: "bw \<le> i \<and> i < w"
                show "m' i = ap ! (i - bw)"
                proof (cases "i < bw + k")
                  case True
                  then have "m' i = ?m1 i" using frame by simp
                  also have "\<dots> = ap ! (i - bw)"
                    using i True enough unfolding k_def by (intro store_inside) auto
                  finally show ?thesis .
                next
                  case False
                  with i have "m' i = drop k ap ! (i - (bw + k))"
                    using layout by simp
                  also have "\<dots> = ap ! (k + (i - (bw + k)))"
                    using enough by (rule nth_drop)
                  also have "k + (i - (bw + k)) = i - bw"
                    using False by simp
                  finally show ?thesis .
                qed
              qed
              have adv': "bw < cap \<and> bw < n \<longrightarrow> bw < w"
              proof (cases "k = 0")
                case True
                with adv show ?thesis by simp
              next
                case False
                with lo show ?thesis by simp
              qed
              from result lo hi full fr lay adv' show ?thesis
                by simp
            qed
          qed
        qed
      qed
    qed
  qed
qed

text \<open>
  A capture loop that had room and returns the count it started with has captured
  nothing: the format string has no conversion specification that captures bytes, and the
  size loop adds nothing for it.
\<close>

lemma copy_loop_mono:
  "copy_loop A cap p (bw, ap, m) = Inr (w, m') \<Longrightarrow> bw \<le> w"
proof (induction p arbitrary: bw ap m rule: measure_induct_rule [of length])
  case (less p)
  show ?case
  proof (cases p)
    case Nil
    with less.prems show ?thesis by (simp add: copy_loop_Nil)
  next
    case (Cons c cs)
    note p = Cons
    show ?thesis
    proof (cases "c \<noteq> NUL \<and> bw < cap")
      case False
      with less.prems p show ?thesis by (auto simp: copy_loop_Cons)
    next
      case True
      note go = True
      show ?thesis
      proof (cases "c = CHR ''%''")
        case False
        with less.prems p go have "copy_loop A cap cs (bw, ap, m) = Inr (w, m')"
          by (simp add: copy_loop_Cons)
        from less.IH [OF _ this] p show ?thesis by simp
      next
        case True
        note pct = True
        show ?thesis
        proof (cases "deref cs = CHR ''%''")
          case True
          with less.prems p pct go have "copy_loop A cap (tl cs) (bw, ap, m) = Inr (w, m')"
            by (simp add: copy_loop_Cons)
          moreover have "length (tl cs) < length p"
            using p by simp
          ultimately show ?thesis
            using less.IH by blast
        next
          case False
          with less.prems p pct go
          obtain bw1 ap1 m1 d q' where
            cw: "copy_switch A (skip_format cs) (bw, ap, m) = Inr ((bw1, ap1, m1), d # q')"
            and run: "copy_loop A cap q' (bw1, ap1, m1) = Inr (w, m')"
            by (auto simp: copy_loop_Cons split: sum.splits list.splits)
          have "length q' < length cs"
            using cw by (rule copy_switch_suffix)
          with p have len: "length q' < length p" by simp
          obtain md q where rm: "read_modifier (skip_format cs) = (md, q)"
            by (cases "read_modifier (skip_format cs)") auto
          have "bw \<le> bw1"
          proof (cases "argument_type (md, deref q)")
            case None
            with cw rm show ?thesis
              by (simp add: copy_switch_read_modifier)
          next
            case (Some T)
            with cw rm have "capture A T (bw, ap, m) = Inr (bw1, ap1, m1)"
              by (cases "capture A T (bw, ap, m)") (auto simp: copy_switch_read_modifier)
            from capture_advances [OF this] show ?thesis by simp
          qed
          moreover from less.IH [OF len run] have "bw1 \<le> w" .
          ultimately show ?thesis by simp
        qed
      qed
    qed
  qed
qed

lemma copy_loop_nothing_captured:
  "calculate_loop A p acc = Inr n \<Longrightarrow> copy_loop A cap p (bw, ap, m) = Inr (bw, m') \<Longrightarrow>
     bw < cap \<Longrightarrow> n = acc"
proof (induction p arbitrary: acc ap m rule: measure_induct_rule [of length])
  case (less p)
  show ?case
  proof (cases p)
    case Nil
    with less.prems show ?thesis by (simp add: calculate_loop_Nil)
  next
    case (Cons c cs)
    note p = Cons
    show ?thesis
    proof (cases "c = NUL")
      case True
      with less.prems p show ?thesis by (simp add: calculate_loop_Cons)
    next
      case False
      note c0 = False
      show ?thesis
      proof (cases "c = CHR ''%''")
        case False
        with less.prems p c0 have "calculate_loop A cs acc = Inr n"
          and "copy_loop A cap cs (bw, ap, m) = Inr (bw, m')"
          by (simp_all add: calculate_loop_Cons copy_loop_Cons)
        with less.IH [of cs acc ap m] less.prems(3) p show ?thesis by simp
      next
        case True
        note pct = True
        show ?thesis
        proof (cases "deref cs = CHR ''%''")
          case True
          with less.prems p pct c0 have "calculate_loop A (tl cs) acc = Inr n"
            and "copy_loop A cap (tl cs) (bw, ap, m) = Inr (bw, m')"
            by (simp_all add: calculate_loop_Cons copy_loop_Cons)
          moreover have "length (tl cs) < length p"
            using p by simp
          ultimately show ?thesis
            using less.IH [of "tl cs" acc ap m] less.prems(3) by simp
        next
          case False
          obtain md q where rm: "read_modifier (skip_format cs) = (md, q)"
            by (cases "read_modifier (skip_format cs)") auto
          have sw: "size_switch A (skip_format cs) = (argument_size A (md, deref q), q)"
            using rm by (simp add: size_switch_read_modifier)
          with less.prems(1) p pct False c0
          obtain d q' where q: "q = d # q'"
            and run: "calculate_loop A q' (acc + argument_size A (md, d)) = Inr n"
            by (auto simp: calculate_loop_Cons split: list.splits)
          have "length q' < length cs"
            using sw q by (simp add: size_switch_suffix)
          with p have len: "length q' < length p" by simp
          have cw: "copy_switch A (skip_format cs) (bw, ap, m) =
              (case argument_type (md, d) of
                 None \<Rightarrow> Inr ((bw, ap, m), d # q')
               | Some T \<Rightarrow> map_sum id (\<lambda>st'. (st', d # q')) (capture A T (bw, ap, m)))"
            using rm q by (simp add: copy_switch_read_modifier)
          have unfold: "copy_loop A cap p (bw, ap, m) =
              (case copy_switch A (skip_format cs) (bw, ap, m) of
                 Inl e \<Rightarrow> Inl e
               | Inr (st', q) \<Rightarrow>
                   (case q of [] \<Rightarrow> Inl Out_Of_Bounds | _ # q' \<Rightarrow> copy_loop A cap q' st'))"
            using False pct c0 p less.prems(3) by (simp add: copy_loop_Cons)
          show ?thesis
          proof (cases "argument_type (md, d)")
            case None
            then have "calculate_loop A q' acc = Inr n"
              using run by (simp add: argument_size_def)
            moreover from None cw unfold less.prems(2)
            have "copy_loop A cap q' (bw, ap, m) = Inr (bw, m')" by simp
            ultimately show ?thesis
              using less.IH [OF len _ _ less.prems(3)] by blast
          next
            case (Some T)
            from Some cw unfold less.prems(2)
            obtain bw1 ap1 m1 where cap1: "capture A T (bw, ap, m) = Inr (bw1, ap1, m1)"
              and res: "copy_loop A cap q' (bw1, ap1, m1) = Inr (bw, m')"
              by (cases "capture A T (bw, ap, m)") auto
            from capture_advances [OF cap1] have bw1: "bw1 = bw + sizeof A T" by simp
            from copy_loop_mono [OF res] bw1 have zero: "sizeof A T = 0" by simp
            with bw1 have "bw1 = bw" by simp
            with res have "copy_loop A cap q' (bw, ap1, m1) = Inr (bw, m')" by simp
            moreover from Some run zero have "calculate_loop A q' acc = Inr n"
              by (simp add: argument_size_def)
            ultimately show ?thesis
              using less.IH [OF len _ _ less.prems(3)] by blast
          qed
        qed
      qed
    qed
  qed
qed

subsection \<open>Size agreement\<close>

lemma copy_args_zero_capacity:
  "log_format_copy_args_to_buffer A (Some m) 0 (Some f) args = Inr (0, Some m)"
  by (simp add: log_format_copy_args_to_buffer_def)

lemma copy_args_positive_capacity:
  "0 < cap \<Longrightarrow>
     log_format_copy_args_to_buffer A (Some m) cap (Some f) args =
       (case copy_loop A cap f (0, va_start A args, m) of
          Inl e \<Rightarrow> Inl e
        | Inr (bytes_written, m') \<Rightarrow> Inr (bytes_written, Some m'))"
  by (simp add: log_format_copy_args_to_buffer_def)

text \<open>
  The capture with the capacity that the size computation returned: it returns that
  size, the destination then holds the first \<open>n\<close> bytes of the argument area at the
  offsets below \<open>n\<close>, and nothing else has changed.
\<close>

lemma copy_args_exact:
  assumes "log_format_calculate_buffer_size A (Some f) = Inr n"
    and "n \<le> length (va_start A args)"
  shows "log_format_copy_args_to_buffer A (Some m) n (Some f) args =
           Inr (n, Some (\<lambda>i. if i < n then va_start A args ! i else m i))"
proof (cases "n = 0")
  case True
  then show ?thesis
    by (simp add: copy_args_zero_capacity)
next
  case False
  from assms(1) have "calculate_loop A f 0 = Inr n"
    by (simp add: log_format_calculate_buffer_size_def)
  from copy_loop_follows [OF this, of "va_start A args" n m] assms(2)
  obtain m' where run: "copy_loop A n f (0, va_start A args, m) = Inr (n, m')"
    and frame: "\<forall>i. n \<le> i \<longrightarrow> m' i = m i"
    and layout: "\<forall>i. i < n \<longrightarrow> m' i = va_start A args ! i"
    by auto
  have "m' = (\<lambda>i. if i < n then va_start A args ! i else m i)"
  proof
    fix i show "m' i = (if i < n then va_start A args ! i else m i)"
      using frame layout by (cases "i < n") simp_all
  qed
  with False run show ?thesis
    by (simp add: copy_args_positive_capacity)
qed

text \<open>
  The arguments a format string captures, added up type by type, take the bytes the size
  computation adds up.
\<close>

lemma captured_types_size:
  "sum_list (map (sizeof A) (List.map_filter argument_type cvs))
     = sum_list (map (argument_size A) cvs)"
  by (induction cvs) (auto simp: map_filter_simps argument_size_def split: option.splits)

text \<open>
  An argument list with one argument of the captured type for each conversion
  specification supplies exactly the bytes the size computation counts.
\<close>

lemma captured_arguments_area:
  assumes "argument_types f = Some (map fst args)"
  shows "log_format_calculate_buffer_size A (Some f) = Inr (length (va_start A args))"
proof -
  from assms obtain cvs where cvs: "conversions f = Some cvs"
    and types: "List.map_filter argument_type cvs = map fst args"
    by (auto simp: argument_types_def)
  have "length (va_start A args) = sum_list (map (argument_size A) cvs)"
    using types by (simp add: length_va_start flip: captured_types_size)
  with calculate_loop_conversions [OF cvs, of A 0] show ?thesis
    by (simp add: log_format_calculate_buffer_size_def)
qed

text \<open>
  C1. Size agreement: for a non-null format string \<open>f\<close>,
  \<^verbatim>\<open>log_format_calculate_buffer_size(f)\<close> returns a size \<open>n\<close> whenever \<open>f\<close> is a well-formed
  format string; and whenever it returns \<open>n\<close> and the variadic arguments supply the bytes
  that the conversion specifications of \<open>f\<close> read (at least \<open>n\<close> bytes in all, which
  covers the arguments a C caller passes for \<open>f\<close>, such as the 8 bytes of a \<^verbatim>\<open>double\<close> for
  \<^verbatim>\<open>%lf\<close>), \<^verbatim>\<open>log_format_copy_args_to_buffer\<close> called with that format, those arguments
  and the destination capacity \<open>n\<close> returns \<open>n\<close> as well. The \<open>n\<close> bytes it has written are
  the first \<open>n\<close> bytes of the arguments in their order, at the offsets \<open>0, \<dots>, n - 1\<close> of the
  destination; every byte from offset \<open>n\<close> on is unchanged. The types of the arguments do
  not enter: the two functions agree whatever the caller has put into the argument area.
\<close>

theorem size_agreement:
  "(conversions f \<noteq> None \<longrightarrow> (\<exists>n. log_format_calculate_buffer_size A (Some f) = Inr n))
   \<and> (log_format_calculate_buffer_size A (Some f) = Inr n \<and> n \<le> length (va_start A args) \<longrightarrow>
        log_format_copy_args_to_buffer A (Some m) n (Some f) args
          = Inr (n, Some (\<lambda>i. if i < n then va_start A args ! i else m i)))"
proof (intro conjI impI)
  assume "conversions f \<noteq> None"
  then obtain cvs where "conversions f = Some cvs"
    by auto
  from calculate_loop_conversions [OF this, of A 0]
  show "\<exists>n. log_format_calculate_buffer_size A (Some f) = Inr n"
    by (simp add: log_format_calculate_buffer_size_def)
next
  assume "log_format_calculate_buffer_size A (Some f) = Inr n \<and> n \<le> length (va_start A args)"
  then show "log_format_copy_args_to_buffer A (Some m) n (Some f) args
      = Inr (n, Some (\<lambda>i. if i < n then va_start A args ! i else m i))"
    by (simp add: copy_args_exact)
qed

theorem size_agreement_witness:
  "conversions ''x=%d y=%lf'' \<noteq> None
   \<and> log_format_calculate_buffer_size ilp32 (Some ''x=%d y=%lf'') = Inr 8
   \<and> 8 \<le> length (va_start ilp32 [(T_int, [42, 0, 0, 0]), (T_double, [1, 2, 3, 4, 5, 6, 7, 8])])
   \<and> log_format_copy_args_to_buffer ilp32 (Some (\<lambda>i. 0)) 8 (Some ''x=%d y=%lf'')
        [(T_int, [42, 0, 0, 0]), (T_double, [1, 2, 3, 4, 5, 6, 7, 8])]
       = Inr (8, Some (\<lambda>i. if i < 8
            then va_start ilp32 [(T_int, [42, 0, 0, 0]), (T_double, [1, 2, 3, 4, 5, 6, 7, 8])] ! i
            else 0))
   \<and> va_start ilp32 [(T_int, [42, 0, 0, 0]), (T_double, [1, 2, 3, 4, 5, 6, 7, 8])]
       = [42, 0, 0, 0, 1, 2, 3, 4, 5, 6, 7, 8]
   \<and> conversions ''%*d'' \<noteq> None
   \<and> log_format_calculate_buffer_size ilp32 (Some ''%*d'') = Inr 0
   \<and> log_format_copy_args_to_buffer ilp32 (Some (\<lambda>i. 0)) 0 (Some ''%*d'')
        [(T_int, [6, 0, 0, 0]), (T_int, [42, 0, 0, 0])]
       = Inr (0, Some (\<lambda>i. 0))
   \<and> conversions ''%lln'' \<noteq> None
   \<and> log_format_calculate_buffer_size ilp32 (Some ''%lln'') = Inr 8
   \<and> va_start ilp32 [(T_int_ptr, [0, 1, 0, 8]), (T_int, [9, 9, 9, 9])] = [0, 1, 0, 8, 9, 9, 9, 9]
   \<and> log_format_copy_args_to_buffer ilp32 (Some (\<lambda>i. 0)) 8 (Some ''%lln'')
        [(T_int_ptr, [0, 1, 0, 8]), (T_int, [9, 9, 9, 9])]
       = Inr (8, Some (\<lambda>i. if i < 8
            then va_start ilp32 [(T_int_ptr, [0, 1, 0, 8]), (T_int, [9, 9, 9, 9])] ! i else 0))"
proof -
  have wf: "conversions ''x=%d y=%lf'' \<noteq> None"
    by code_simp
  have size: "log_format_calculate_buffer_size ilp32 (Some ''x=%d y=%lf'') = Inr 8"
    by code_simp
  have area: "va_start ilp32 [(T_int, [42, 0, 0, 0]), (T_double, [1, 2, 3, 4, 5, 6, 7, 8])]
      = [42, 0, 0, 0, 1, 2, 3, 4, 5, 6, 7, 8]"
    by (simp add: va_start_def argument_bytes_def ilp32_def)
  have wf': "conversions ''%*d'' \<noteq> None"
    by code_simp
  have size': "log_format_calculate_buffer_size ilp32 (Some ''%*d'') = Inr 0"
    by code_simp
  have wf'': "conversions ''%lln'' \<noteq> None"
    by code_simp
  have size'': "log_format_calculate_buffer_size ilp32 (Some ''%lln'') = Inr 8"
    by code_simp
  have area'': "va_start ilp32 [(T_int_ptr, [0, 1, 0, 8]), (T_int, [9, 9, 9, 9])] = [0, 1, 0, 8, 9, 9, 9, 9]"
    by (simp add: va_start_def argument_bytes_def ilp32_def)
  from size_agreement [where f = "''x=%d y=%lf''" and A = ilp32 and n = 8
      and args = "[(T_int, [42, 0, 0, 0]), (T_double, [1, 2, 3, 4, 5, 6, 7, 8])]"
      and m = "\<lambda>i. 0"]
    size_agreement [where f = "''%*d''" and A = ilp32 and n = 0
      and args = "[(T_int, [6, 0, 0, 0]), (T_int, [42, 0, 0, 0])]" and m = "\<lambda>i. 0"]
    size_agreement [where f = "''%lln''" and A = ilp32 and n = 8
      and args = "[(T_int_ptr, [0, 1, 0, 8]), (T_int, [9, 9, 9, 9])]" and m = "\<lambda>i. 0"]
    wf size area wf' size' wf'' size'' area''
  show ?thesis by simp
qed

subsection \<open>The table of byte costs\<close>

text \<open>
  The table of the specification, row by row in the order it is stated: \<^verbatim>\<open>sizeof(int)\<close>
  for \<^verbatim>\<open>d,i,o,u,x,X,c\<close> without length modifier and for \<^verbatim>\<open>hh\<close>- or \<^verbatim>\<open>h\<close>-modified
  integer conversions, \<^verbatim>\<open>sizeof(long)\<close> for \<^verbatim>\<open>l\<close>-modified integer conversions,
  \<^verbatim>\<open>sizeof(long long)\<close> for \<^verbatim>\<open>ll\<close>, \<^verbatim>\<open>sizeof(size_t)\<close> for \<^verbatim>\<open>z\<close>,
  \<^verbatim>\<open>sizeof(ptrdiff_t)\<close> for \<^verbatim>\<open>t\<close>, \<^verbatim>\<open>sizeof(intmax_t)\<close> for \<^verbatim>\<open>j\<close>,
  \<^verbatim>\<open>sizeof(double)\<close> for \<^verbatim>\<open>f,F,e,E,g,G\<close>, the pointer size for \<^verbatim>\<open>s\<close>, \<^verbatim>\<open>p\<close>
  and \<^verbatim>\<open>n\<close>. The literal \<^verbatim>\<open>%%\<close> is no conversion specification and costs nothing.
  This definition follows the words of the specification, not the code.
\<close>

definition is_integer_conversion :: "char \<Rightarrow> bool" where
  "is_integer_conversion c =
     (c = CHR ''d'' \<or> c = CHR ''i'' \<or> c = CHR ''o'' \<or> c = CHR ''u'' \<or> c = CHR ''x'' \<or> c = CHR ''X'')"

definition is_float_conversion :: "char \<Rightarrow> bool" where
  "is_float_conversion c =
     (c = CHR ''f'' \<or> c = CHR ''F'' \<or> c = CHR ''e'' \<or> c = CHR ''E'' \<or> c = CHR ''g'' \<or> c = CHR ''G'')"

definition table_cost :: "abi \<Rightarrow> conversion \<Rightarrow> nat" where
  "table_cost A cv =
     (case cv of (m, c) \<Rightarrow>
        if m = No_modifier \<and> (is_integer_conversion c \<or> c = CHR ''c'') then sizeof_int A
        else if (m = Mod_hh \<or> m = Mod_h) \<and> is_integer_conversion c then sizeof_int A
        else if m = Mod_l \<and> is_integer_conversion c then sizeof_long A
        else if m = Mod_ll then sizeof_long_long A
        else if m = Mod_z then sizeof_size_t A
        else if m = Mod_t then sizeof_ptrdiff_t A
        else if m = Mod_j then sizeof_intmax_t A
        else if is_float_conversion c then sizeof_double A
        else if c = CHR ''s'' \<or> c = CHR ''p'' \<or> c = CHR ''n'' then sizeof_pointer A
        else 0)"

definition table_size :: "abi \<Rightarrow> string \<Rightarrow> nat option" where
  "table_size A f = map_option (\<lambda>cvs. sum_list (map (table_cost A) cvs)) (conversions f)"

text \<open>
  The code and the table give a conversion specification the same cost unless an
  \<^verbatim>\<open>hh\<close>, \<^verbatim>\<open>h\<close> or \<^verbatim>\<open>l\<close> modifier stands before a character that is no integer
  conversion: the code then still adds the size the modifier selects.
\<close>

lemma argument_size_table_cost:
  "(m \<in> {Mod_hh, Mod_h, Mod_l} \<longrightarrow> is_integer_conversion c) \<Longrightarrow>
     argument_size A (m, c) = table_cost A (m, c)"
  by (cases m)
    (auto simp: argument_size_def table_cost_def type_of_specifier_def
      is_integer_conversion_def is_float_conversion_def)

lemma calculate_buffer_size_table:
  assumes "conversions f = Some cvs"
    and "\<forall>(m, c) \<in> set cvs. m \<in> {Mod_hh, Mod_h, Mod_l} \<longrightarrow> is_integer_conversion c"
  shows "log_format_calculate_buffer_size A (Some f) = Inr (sum_list (map (table_cost A) cvs))"
proof -
  have "sum_list (map (argument_size A) cvs) = sum_list (map (table_cost A) cvs)"
    using assms(2) by (induction cvs) (auto simp: argument_size_table_cost)
  then show ?thesis
    using calculate_loop_conversions [OF assms(1), of A 0]
    by (simp add: log_format_calculate_buffer_size_def)
qed

text \<open>
  A conversion specification cut off by the end of the string makes the common
  \<^verbatim>\<open>p++\<close> step over the terminating NUL, and the loop reads behind the string.
\<close>

lemma calculate_buffer_size_truncated:
  "log_format_calculate_buffer_size A (Some ''100%'') = Inl Out_Of_Bounds"
  by (simp add: log_format_calculate_buffer_size_def calculate_loop_Cons skip_format_def
      size_of_specifier_def)

text \<open>
  C2. The claim: for every format string \<^verbatim>\<open>log_format_calculate_buffer_size\<close> returns the
  sum of the table's byte costs over its conversion specifications, among them
  \<^verbatim>\<open>sizeof(double)\<close> for \<^verbatim>\<open>f\<close>. The code does not: on the 32-bit target the format
  string \<^verbatim>\<open>%lf\<close>, one \<^verbatim>\<open>f\<close> conversion whose argument is a \<^verbatim>\<open>double\<close> of 8 bytes, makes
  it return \<^verbatim>\<open>sizeof(long)\<close>, 4, because the branch for \<^verbatim>\<open>l\<close> never looks at the
  conversion character. And for the format string \<^verbatim>\<open>100%\<close> it returns no sum at all:
  it reads behind the end of the string.
\<close>

theorem calculate_buffer_size_long_float:
  "log_format_calculate_buffer_size ilp32 (Some ''%lf'') = Inr 4
   \<and> table_size ilp32 ''%lf'' = Some 8
   \<and> log_format_calculate_buffer_size ilp32 (Some ''100%'') = Inl Out_Of_Bounds"
  by code_simp

subsection \<open>Capacity of the destination\<close>

definition zero_memory :: memory where
  "zero_memory = (\<lambda>i. 0)"

text \<open>
  C4. The claim: \<^verbatim>\<open>log_format_copy_args_to_buffer\<close> never writes a byte at an offset at or
  beyond \<^verbatim>\<open>dst_capacity\<close>, also when one captured argument is wider than the capacity
  that remains. The code compares \<^verbatim>\<open>bytes_written\<close> with the capacity only before it
  handles a conversion: with capacity 1, the format \<^verbatim>\<open>%d\<close> and one \<^verbatim>\<open>int\<close> it stores
  all 4 bytes of the \<^verbatim>\<open>int\<close> and returns 4; the bytes at the offsets 1, 2 and 3, which
  were 0, now hold the argument's bytes.
\<close>

theorem copy_args_writes_beyond_capacity:
  "log_format_copy_args_to_buffer ilp32 (Some zero_memory) 1 (Some ''%d'') [(T_int, [1, 2, 3, 4])]
     = Inr (4, Some (store ilp32 zero_memory 0 T_int [1, 2, 3, 4]))
   \<and> store ilp32 zero_memory 0 T_int [1, 2, 3, 4] 3 = 4
   \<and> zero_memory 3 = 0"
  by (simp add: log_format_copy_args_to_buffer_def copy_loop_Cons copy_loop_Nil skip_format_def
      type_of_specifier_def capture_def va_arg_def va_start_def argument_bytes_def store_def
      zero_memory_def ilp32_def is_flag_def is_digit_def)

subsection \<open>The zero return value\<close>

text \<open>
  C5, as claimed: \<^verbatim>\<open>log_format_copy_args_to_buffer\<close> returns 0 if and only if an input is
  invalid or the capacity is 0. This fails: with a valid buffer of capacity 8 and the
  valid format string \<^verbatim>\<open>hello\<close>, which has no conversion specification, nothing is
  captured and the function returns 0.
\<close>

theorem copy_args_zero_on_valid_input:
  "log_format_copy_args_to_buffer ilp32 (Some zero_memory) 8 (Some ''hello'') []
     = Inr (0, Some zero_memory)"
  by (simp add: log_format_copy_args_to_buffer_def copy_loop_Cons copy_loop_Nil)

text \<open>
  C5, amended: \<^verbatim>\<open>log_format_copy_args_to_buffer\<close> returns 0 whenever the buffer or the
  format string is null or the capacity is 0. With a buffer, a non-zero capacity, a
  well-formed format string and arguments of the captured types it returns 0 exactly when
  the format string captures no bytes, that is when \<^verbatim>\<open>log_format_calculate_buffer_size\<close>
  returns 0 for it, and a non-zero byte count otherwise.
\<close>

theorem copy_args_zero_iff:
  "log_format_copy_args_to_buffer A None cap fmt args = Inr (0, None)
   \<and> log_format_copy_args_to_buffer A buffer cap None args = Inr (0, buffer)
   \<and> log_format_copy_args_to_buffer A buffer 0 fmt args = Inr (0, buffer)
   \<and> (0 < cap \<and> argument_types f = Some (map fst args) \<longrightarrow>
        (\<exists>n w m'. log_format_calculate_buffer_size A (Some f) = Inr n
           \<and> log_format_copy_args_to_buffer A (Some m) cap (Some f) args = Inr (w, Some m')
           \<and> (w = 0 \<longleftrightarrow> n = 0)))"
proof (intro conjI impI)
  show "log_format_copy_args_to_buffer A None cap fmt args = Inr (0, None)"
    by (simp add: log_format_copy_args_to_buffer_def)
  show "log_format_copy_args_to_buffer A buffer cap None args = Inr (0, buffer)"
    by (simp add: log_format_copy_args_to_buffer_def split: option.splits)
  show "log_format_copy_args_to_buffer A buffer 0 fmt args = Inr (0, buffer)"
    by (simp add: log_format_copy_args_to_buffer_def split: option.splits)
next
  assume h: "0 < cap \<and> argument_types f = Some (map fst args)"
  then obtain cvs where cvs: "conversions f = Some cvs"
    and types: "List.map_filter argument_type cvs = map fst args"
    by (auto simp: argument_types_def)
  define n where "n = sum_list (map (argument_size A) cvs)"
  have loop: "calculate_loop A f 0 = Inr n"
    using calculate_loop_conversions [OF cvs, of A 0] by (simp add: n_def)
  then have size: "log_format_calculate_buffer_size A (Some f) = Inr n"
    by (simp add: log_format_calculate_buffer_size_def)
  have "length (va_start A args) = n"
    using types by (simp add: length_va_start n_def flip: captured_types_size)
  then have "n \<le> 0 + length (va_start A args)"
    by simp
  from copy_loop_follows [OF loop this, of cap m]
  obtain w m' where run: "copy_loop A cap f (0, va_start A args, m) = Inr (w, m')"
    and hi: "w \<le> n" and adv: "0 < cap \<and> 0 < n \<longrightarrow> 0 < w"
    by auto
  from h run have "log_format_copy_args_to_buffer A (Some m) cap (Some f) args = Inr (w, Some m')"
    by (simp add: copy_args_positive_capacity)
  moreover from h hi adv have "w = 0 \<longleftrightarrow> n = 0"
    by auto
  ultimately show "\<exists>n w m'. log_format_calculate_buffer_size A (Some f) = Inr n
      \<and> log_format_copy_args_to_buffer A (Some m) cap (Some f) args = Inr (w, Some m')
      \<and> (w = 0 \<longleftrightarrow> n = 0)"
    using size by blast
qed

theorem copy_args_zero_iff_witness:
  "(0 :: nat) < 8
   \<and> argument_types ''x=%d y=%s''
       = Some (map fst [(T_int, [42, 0, 0, 0]), (T_char_ptr, [0, 1, 0, 8]) :: argument])
   \<and> (\<exists>n w m'. log_format_calculate_buffer_size ilp32 (Some ''x=%d y=%s'') = Inr n
         \<and> log_format_copy_args_to_buffer ilp32 (Some zero_memory) 8 (Some ''x=%d y=%s'')
              [(T_int, [42, 0, 0, 0]), (T_char_ptr, [0, 1, 0, 8])] = Inr (w, Some m')
         \<and> (w = 0 \<longleftrightarrow> n = 0))"
proof -
  have h: "(0 :: nat) < 8 \<and> argument_types ''x=%d y=%s''
             = Some (map fst [(T_int, [42, 0, 0, 0]), (T_char_ptr, [0, 1, 0, 8]) :: argument])"
    by code_simp
  from copy_args_zero_iff [where A = ilp32 and cap = 8 and f = "''x=%d y=%s''"
      and args = "[(T_int, [42, 0, 0, 0]), (T_char_ptr, [0, 1, 0, 8])]" and m = zero_memory] h
  show ?thesis by blast
qed
section \<open>Message Pool (\<^verbatim>\<open>log_pool.c\<close>)\<close>

text \<open>
  \<^verbatim>\<open>size_t\<close> has 32 bits on the default target; sums and differences of sizes wrap
  around as they do in C. A message handle (\<^verbatim>\<open>log_msg_t *\<close>) is the offset of the
  message in \<^verbatim>\<open>prv_log_buffer_pool\<close>, \<open>None\<close> is the null pointer; the pointer
  arithmetic of the code is arithmetic on these offsets.
\<close>

type_synonym size_t = "32 word"

definition LOG_BUFFER_SIZE_BYTES :: size_t where
  "LOG_BUFFER_SIZE_BYTES = 1024"

definition LOG_MSG_SIZE :: "abi \<Rightarrow> size_t \<Rightarrow> size_t" where
  "LOG_MSG_SIZE A args_size = of_nat (sizeof_log_msg A) + args_size"

text \<open>
  The arena is the array \<^verbatim>\<open>prv_log_buffer_pool\<close> itself, byte by byte: its elements are
  the offsets \<open>0, \<dots>, 1023\<close> of a memory. A field of a message is the bytes at the offset of
  the message plus the offset of the field in \<^verbatim>\<open>log_msg_t\<close>, so that messages which
  overlap share bytes. A \<^verbatim>\<open>size_t\<close> and a pointer take 4 bytes, the least significant
  byte first. A store or a read that is not inside the array is undefined in C and
  reported as \<open>Out_Of_Bounds\<close>.
\<close>

definition encode :: "size_t \<Rightarrow> byte list" where
  "encode w = [ucast w, ucast (drop_bit 8 w), ucast (drop_bit 16 w), ucast (drop_bit 24 w)]"

definition decode :: "byte list \<Rightarrow> size_t" where
  "decode bs =
     (case bs of
        [b0, b1, b2, b3] \<Rightarrow>
          or (ucast b0) (or (push_bit 8 (ucast b1)) (or (push_bit 16 (ucast b2)) (push_bit 24 (ucast b3))))
      | _ \<Rightarrow> 0)"

definition store_bytes :: "memory \<Rightarrow> nat \<Rightarrow> byte list \<Rightarrow> memory" where
  "store_bytes m off bs = (\<lambda>i. if off \<le> i \<and> i < off + length bs then bs ! (i - off) else m i)"

definition load_size_t :: "memory \<Rightarrow> nat \<Rightarrow> size_t" where
  "load_size_t m off = decode [m off, m (off + 1), m (off + 2), m (off + 3)]"

definition in_arena :: "nat \<Rightarrow> nat \<Rightarrow> bool" where
  "in_arena off n = (off + n \<le> unat LOG_BUFFER_SIZE_BYTES)"

text \<open>
  The status codes of the specification. The code returns \<^verbatim>\<open>0\<close> for \<open>OK\<close>,
  \<^verbatim>\<open>-EINVAL\<close> for \<open>INVALID_ARGUMENT\<close>, \<^verbatim>\<open>-ENOSPC\<close> for \<open>NO_SPACE\<close> and \<^verbatim>\<open>-EIO\<close> for
  \<open>IO_ERROR\<close>; no return statement of the sources produces a value for
  \<open>NOT_INITIALIZED\<close>.
\<close>

datatype status = OK | INVALID_ARGUMENT | NO_SPACE | IO_ERROR | NOT_INITIALIZED

record pool =
  mutex_created :: bool
  mutex_taken :: bool
  used :: size_t
  arena :: memory

definition arena_store :: "nat \<Rightarrow> byte list \<Rightarrow> pool \<Rightarrow> error + pool" where
  "arena_store off bs s =
     (if in_arena off (length bs) then Inr (s\<lparr>arena := store_bytes (arena s) off bs\<rparr>)
      else Inl Out_Of_Bounds)"

definition arena_load_size_t :: "nat \<Rightarrow> pool \<Rightarrow> error + size_t" where
  "arena_load_size_t off s =
     (if in_arena off 4 then Inr (load_size_t (arena s) off) else Inl Out_Of_Bounds)"

text \<open>
  Modelled from the spec: the RTOS mutex (section 5 of the specification; FreeRTOS is not
  part of the repository). From a task, \<^verbatim>\<open>xSemaphoreTake(m, portMAX_DELAY)\<close> waits until
  the mutex is free and then holds it; from an interrupt, \<^verbatim>\<open>xSemaphoreTakeFromISR\<close> does
  not wait and fails when the mutex is held. \<open>isr\<close> is the value of
  \<^verbatim>\<open>xPortIsInsideInterrupt()\<close> during the call.
\<close>

definition semaphore_take :: "bool \<Rightarrow> pool \<Rightarrow> bool \<times> pool" where
  "semaphore_take isr s =
     (if isr \<and> mutex_taken s then (False, s) else (True, s\<lparr>mutex_taken := True\<rparr>))"

definition semaphore_give :: "bool \<Rightarrow> pool \<Rightarrow> pool" where
  "semaphore_give isr s = s\<lparr>mutex_taken := False\<rparr>"

text \<open>
  \<^verbatim>\<open>log_pool_init\<close>; \<open>created\<close> tells whether \<^verbatim>\<open>xSemaphoreCreateMutexStatic\<close> returned a
  handle.
\<close>

definition log_pool_init :: "bool \<Rightarrow> pool \<Rightarrow> status \<times> pool" where
  "log_pool_init created s =
     (if \<not> created then (IO_ERROR, s\<lparr>mutex_created := False\<rparr>)
      else (OK, s\<lparr>mutex_created := True, mutex_taken := False, used := 0\<rparr>))"

text \<open>
  \<^verbatim>\<open>log_pool_alloc\<close>. After the comparison with \<^verbatim>\<open>LOG_BUFFER_SIZE_BYTES\<close> the message
  is placed at the watermark, the watermark is moved, and
  \<^verbatim>\<open>msg->args_buffer_size = args_size\<close> stores 4 bytes at the offset of the message plus
  the offset of the field.
\<close>

definition log_pool_alloc :: "abi \<Rightarrow> bool \<Rightarrow> size_t \<Rightarrow> pool \<Rightarrow> error + (size_t option \<times> pool)" where
  "log_pool_alloc A isr args_size s =
     (let total_size = LOG_MSG_SIZE A args_size
      in if \<not> mutex_created s then Inr (None, s)
         else
           (case semaphore_take isr s of
              (ret, s1) \<Rightarrow>
                if \<not> ret then Inr (None, s1)
                else if LOG_BUFFER_SIZE_BYTES < used s1 + total_size
                  then Inr (None, semaphore_give isr s1)
                else
                  (let msg = used s1;
                       s2 = s1\<lparr>used := used s1 + total_size\<rparr>
                   in case arena_store (unat msg + offsetof_args_buffer_size A) (encode args_size) s2 of
                        Inl e \<Rightarrow> Inl e
                      | Inr s3 \<Rightarrow> Inr (Some msg, semaphore_give isr s3))))"

text \<open>
  \<^verbatim>\<open>log_pool_free\<close> reads \<^verbatim>\<open>msg->args_buffer_size\<close> from the arena and moves the
  watermark back when the message ends at the watermark.
\<close>

definition log_pool_free :: "abi \<Rightarrow> bool \<Rightarrow> size_t option \<Rightarrow> pool \<Rightarrow> error + pool" where
  "log_pool_free A isr msg s =
     (case msg of
        None \<Rightarrow> Inr s
      | Some p \<Rightarrow>
          if \<not> mutex_created s then Inr s
          else
            (case semaphore_take isr s of
               (ret, s1) \<Rightarrow>
                 if \<not> ret then Inr s1
                 else
                   (case arena_load_size_t (unat p + offsetof_args_buffer_size A) s1 of
                      Inl e \<Rightarrow> Inl e
                    | Inr args_size \<Rightarrow>
                        (let size = LOG_MSG_SIZE A args_size
                         in Inr (semaphore_give isr
                              (if p + size = used s1 then s1\<lparr>used := used s1 - size\<rparr> else s1))))))"

text \<open>The static storage before \<^verbatim>\<open>log_pool_init\<close> has run: all zero.\<close>

definition boot_pool :: pool where
  "boot_pool = \<lparr> mutex_created = False, mutex_taken = False, used = 0, arena = zero_memory \<rparr>"

definition ready_pool :: pool where
  "ready_pool = snd (log_pool_init True boot_pool)"

subsection \<open>Bytes of the arena\<close>

lemma decode_encode: "decode (encode w) = w"
proof (rule bit_word_eqI)
  fix n assume "n < LENGTH(32)"
  then have n: "n < 32" by simp
  consider "n < 8" | "8 \<le> n" "n < 16" | "16 \<le> n" "n < 24" | "24 \<le> n"
    by linarith
  then show "bit (decode (encode w)) n = bit w n"
    using n by cases (auto simp: decode_def encode_def bit_simps)
qed

lemma length_encode: "length (encode w) = 4"
  by (simp add: encode_def)

lemma store_bytes_outside:
  "i < off \<or> off + length bs \<le> i \<Longrightarrow> store_bytes m off bs i = m i"
  by (auto simp: store_bytes_def)

lemma store_bytes_inside:
  "off \<le> i \<Longrightarrow> i < off + length bs \<Longrightarrow> store_bytes m off bs i = bs ! (i - off)"
  by (simp add: store_bytes_def)

lemma load_size_t_store_same:
  "load_size_t (store_bytes m off (encode w)) off = w"
proof -
  have "load_size_t (store_bytes m off (encode w)) off = decode (encode w)"
    by (simp add: load_size_t_def store_bytes_def encode_def)
  then show ?thesis
    by (simp add: decode_encode)
qed

lemma load_size_t_store_other:
  "off' + 4 \<le> off \<or> off + length bs \<le> off' \<Longrightarrow>
     load_size_t (store_bytes m off bs) off' = load_size_t m off'"
  by (auto simp: load_size_t_def store_bytes_def)

lemma load_size_t_cong:
  "(\<forall>i. off \<le> i \<and> i < off + 4 \<longrightarrow> m' i = m i) \<Longrightarrow> load_size_t m' off = load_size_t m off"
  by (simp add: load_size_t_def)

subsection \<open>The watermark stays inside the arena\<close>

text \<open>
  The states of the pool reachable from a successful \<^verbatim>\<open>log_pool_init\<close> by calls of
  \<^verbatim>\<open>log_pool_alloc\<close>, \<^verbatim>\<open>log_pool_free\<close> and \<^verbatim>\<open>log_pool_init\<close> in any order and from any
  context, together with the handles \<^verbatim>\<open>log_pool_alloc\<close> has returned so far. Only those
  handles (and the null pointer) are passed to \<^verbatim>\<open>log_pool_free\<close>. Between the calls the
  owners of the messages may store anything into the bytes of the arena. A call whose
  store or read leaves the array has no defined behaviour and no state after it: the
  program is followed only as far as its behaviour is defined.
\<close>

inductive reachable :: "abi \<Rightarrow> pool \<Rightarrow> size_t set \<Rightarrow> bool" for A :: abi where
  init: "reachable A (snd (log_pool_init True s0)) {}"
| reinit: "reachable A s H \<Longrightarrow> reachable A (snd (log_pool_init created s)) H"
| alloc: "reachable A s H \<Longrightarrow> log_pool_alloc A isr args_size s = Inr (r, s') \<Longrightarrow>
            reachable A s' (H \<union> set_option r)"
| free: "reachable A s H \<Longrightarrow> msg = None \<or> msg \<in> Some ` H \<Longrightarrow>
           log_pool_free A isr msg s = Inr s' \<Longrightarrow> reachable A s' H"
| owner_store: "reachable A s H \<Longrightarrow> reachable A (s\<lparr>arena := ar\<rparr>) H"

lemma log_pool_alloc_bounded:
  assumes "used s \<le> LOG_BUFFER_SIZE_BYTES" and "log_pool_alloc A isr args_size s = Inr (r, s')"
  shows "used s' \<le> LOG_BUFFER_SIZE_BYTES \<and> (\<forall>h \<in> set_option r. h \<le> LOG_BUFFER_SIZE_BYTES)"
  using assms
  by (auto simp: log_pool_alloc_def Let_def semaphore_take_def semaphore_give_def arena_store_def
      split: if_splits)

lemma log_pool_free_bounded:
  assumes "used s \<le> LOG_BUFFER_SIZE_BYTES"
    and "msg = None \<or> (\<exists>h. msg = Some h \<and> h \<le> LOG_BUFFER_SIZE_BYTES)"
    and "log_pool_free A isr msg s = Inr s'"
  shows "used s' \<le> LOG_BUFFER_SIZE_BYTES"
proof (cases msg)
  case None
  with assms show ?thesis by (simp add: log_pool_free_def)
next
  case (Some p)
  with assms(2) have p: "p \<le> LOG_BUFFER_SIZE_BYTES" by auto
  have sub: "used s - size = p" if "p + size = used s" for size
    using that by (metis add_diff_cancel_right')
  show ?thesis
    using assms(1,3) p sub Some
    by (auto simp: log_pool_free_def Let_def semaphore_take_def semaphore_give_def
        arena_load_size_t_def split: if_splits)
qed

lemma log_pool_init_bounded:
  assumes "used s \<le> LOG_BUFFER_SIZE_BYTES"
  shows "used (snd (log_pool_init created s)) \<le> LOG_BUFFER_SIZE_BYTES"
  using assms by (simp add: log_pool_init_def)

lemma reachable_bounded:
  "reachable A s H \<Longrightarrow> used s \<le> LOG_BUFFER_SIZE_BYTES \<and> (\<forall>h \<in> H. h \<le> LOG_BUFFER_SIZE_BYTES)"
proof (induction rule: reachable.induct)
  case (init s0)
  show ?case by (simp add: log_pool_init_def)
next
  case (reinit s H created)
  then show ?case using log_pool_init_bounded [of s created] by simp
next
  case (alloc s H isr args_size r s')
  then show ?case using log_pool_alloc_bounded [of s A isr args_size r s'] by auto
next
  case (free s H msg isr s')
  then show ?case using log_pool_free_bounded [of s msg A isr s'] by auto
next
  case (owner_store s H ar)
  then show ?case by simp
qed

text \<open>
  As long as the behaviour of the calls is defined, the watermark, read as a number, is at
  most 1024.
\<close>

lemma reachable_watermark_bounded:
  "reachable A s H \<Longrightarrow> unat (used s) \<le> 1024"
proof -
  assume "reachable A s H"
  then have "used s \<le> LOG_BUFFER_SIZE_BYTES"
    using reachable_bounded by blast
  then have "unat (used s) \<le> unat LOG_BUFFER_SIZE_BYTES"
    by (simp add: word_le_nat_alt)
  then show ?thesis
    by (simp add: LOG_BUFFER_SIZE_BYTES_def)
qed

text \<open>
  C10. The claim: in every state reachable from initialization by any sequence of
  \<^verbatim>\<open>log_pool_alloc\<close> and \<^verbatim>\<open>log_pool_free\<close> calls the watermark \<^verbatim>\<open>prv_log_buffer_used\<close>
  satisfies \<open>0 \<le> used \<le> LOG_BUFFER_SIZE_BYTES\<close>. The code does not keep this for every
  sequence. After \<^verbatim>\<open>log_pool_alloc(988)\<close> in the freshly initialised pool the watermark is
  1008. A request for \<^verbatim>\<open>0xFFFFFFEC\<close> bytes then has the total size 20 + 4294967276, which
  wraps to 0; the comparison with 1024 passes, the message is placed at offset 1008, and
  the store of its \<^verbatim>\<open>args_buffer_size\<close>, 16 bytes further, goes to the offsets 1024 to
  1027, behind the last element of \<^verbatim>\<open>prv_log_buffer_pool\<close>. The store overwrites whatever
  object lies behind the array, and the state of the program after it is not defined.
\<close>

theorem pool_watermark_store_outside:
  "log_pool_alloc ilp32 False 988 ready_pool
     = Inr (Some 0, ready_pool\<lparr>used := 1008, arena := store_bytes zero_memory 16 (encode 988)\<rparr>)
   \<and> LOG_MSG_SIZE ilp32 0xFFFFFFEC = 0
   \<and> \<not> LOG_BUFFER_SIZE_BYTES < 1008 + LOG_MSG_SIZE ilp32 0xFFFFFFEC
   \<and> \<not> in_arena (1008 + offsetof_args_buffer_size ilp32) 4
   \<and> log_pool_alloc ilp32 False 0xFFFFFFEC
       (ready_pool\<lparr>used := 1008, arena := store_bytes zero_memory 16 (encode 988)\<rparr>)
     = Inl Out_Of_Bounds"
  by (simp add: log_pool_alloc_def ready_pool_def log_pool_init_def boot_pool_def Let_def
      semaphore_take_def semaphore_give_def LOG_MSG_SIZE_def LOG_BUFFER_SIZE_BYTES_def ilp32_def
      arena_store_def in_arena_def length_encode)

subsection \<open>Exhaustion\<close>

text \<open>A failed allocation leaves the watermark and the arena as they were.\<close>

lemma log_pool_alloc_failure_frame:
  assumes "log_pool_alloc A isr args_size s = Inr (None, s')"
  shows "used s' = used s \<and> arena s' = arena s \<and> mutex_created s' = mutex_created s"
  using assms
  by (auto simp: log_pool_alloc_def Let_def semaphore_take_def semaphore_give_def arena_store_def
      split: if_splits)

text \<open>
  When the header and the requested size together still fit into \<^verbatim>\<open>size_t\<close> behind the
  watermark, the comparison of the code is the comparison of the numbers, and a request
  that exceeds the arena fails.
\<close>

lemma log_pool_alloc_exhausted:
  assumes fits: "unat (used s) + sizeof_log_msg A + unat args_size < 2 ^ 32"
    and over: "1024 < unat (used s) + sizeof_log_msg A + unat args_size"
  shows "\<exists>s'. log_pool_alloc A isr args_size s = Inr (None, s')"
proof -
  have h: "unat (of_nat (sizeof_log_msg A) :: size_t) = sizeof_log_msg A"
    using fits by (simp add: unat_of_nat)
  have t: "unat (LOG_MSG_SIZE A args_size) = sizeof_log_msg A + unat args_size"
    unfolding LOG_MSG_SIZE_def using fits h by (simp add: unat_add_lem [THEN iffD1])
  have "unat (used s + LOG_MSG_SIZE A args_size) = unat (used s) + (sizeof_log_msg A + unat args_size)"
    using fits t by (simp add: unat_add_lem [THEN iffD1])
  with over have "LOG_BUFFER_SIZE_BYTES < used s + LOG_MSG_SIZE A args_size"
    by (simp add: word_less_nat_alt LOG_BUFFER_SIZE_BYTES_def)
  then show ?thesis
    by (simp add: log_pool_alloc_def Let_def semaphore_take_def semaphore_give_def
        split: if_splits)
qed

text \<open>
  C7. The claim: when the requested total size would exceed \<^verbatim>\<open>POOL_BYTES\<close> beyond the
  current watermark, \<^verbatim>\<open>log_pool_alloc\<close> returns the failure and changes nothing. The code
  adds \<^verbatim>\<open>sizeof(log_msg_t)\<close>, the requested size and the watermark in \<^verbatim>\<open>size_t\<close> without a
  check for overflow. In the freshly initialised pool a request for \<^verbatim>\<open>0xFFFFFFFF\<close>
  bytes needs 20 + 4294967295 bytes, far more than 1024; the sum wraps to 19, the
  comparison with 1024 passes, a handle is returned, the watermark moves to 19 and the
  requested size is stored into the \<^verbatim>\<open>args_buffer_size\<close> of the message at offset 0.
\<close>

theorem log_pool_alloc_size_overflow:
  "1024 < unat (used ready_pool) + sizeof_log_msg ilp32 + unat (0xFFFFFFFF :: size_t)
   \<and> used ready_pool = 0
   \<and> log_pool_alloc ilp32 False 0xFFFFFFFF ready_pool
       = Inr (Some 0, ready_pool\<lparr>used := 19, arena := store_bytes zero_memory 16 (encode 0xFFFFFFFF)\<rparr>)
   \<and> load_size_t (store_bytes zero_memory 16 (encode 0xFFFFFFFF)) (0 + offsetof_args_buffer_size ilp32)
       = 0xFFFFFFFF"
  by (simp add: log_pool_alloc_def ready_pool_def log_pool_init_def boot_pool_def Let_def
      semaphore_take_def semaphore_give_def LOG_MSG_SIZE_def LOG_BUFFER_SIZE_BYTES_def ilp32_def
      arena_store_def in_arena_def length_encode load_size_t_store_same)

subsection \<open>Balanced sequences of allocations and frees\<close>

text \<open>
  A sequence of pool calls in which every free releases the most recently allocated
  message that is not yet freed. The handles not yet freed are kept on a stack; a failed
  allocation leaves the null pointer there, which \<^verbatim>\<open>log_pool_free\<close> tolerates. A sequence
  is balanced when it runs from the empty stack to the empty stack. A free without an
  allocation before it is no such sequence (\<open>None\<close>).
\<close>

datatype pool_call = Alloc bool size_t | Free bool

fun run_calls ::
  "abi \<Rightarrow> pool_call list \<Rightarrow> pool \<times> size_t option list \<Rightarrow> error + (pool \<times> size_t option list) option" where
  "run_calls A [] st = Inr (Some st)"
| "run_calls A (Alloc isr args_size # calls) (s, live) =
     (case log_pool_alloc A isr args_size s of
        Inl e \<Rightarrow> Inl e
      | Inr (r, s') \<Rightarrow> run_calls A calls (s', r # live))"
| "run_calls A (Free isr # calls) (s, live) =
     (case live of
        [] \<Rightarrow> Inr None
      | msg # live' \<Rightarrow>
          (case log_pool_free A isr msg s of
             Inl e \<Rightarrow> Inl e
           | Inr s' \<Rightarrow> run_calls A calls (s', live')))"

text \<open>
  C8. The claim: after any balanced sequence of \<^verbatim>\<open>log_pool_alloc\<close> and \<^verbatim>\<open>log_pool_free\<close>
  calls that frees in LIFO order the watermark is 0 again. With requests whose size
  computation wraps around this fails. Three allocations, of 0, \<^verbatim>\<open>0xFFFFFFD8\<close> and 5
  bytes, all succeed: the second has the total size \<open>2\<^sup>3\<^sup>2 - 20\<close> and moves the watermark
  from 20 back to 0, so the third message lies at offset 0 like the first and overwrites
  its \<^verbatim>\<open>args_buffer_size\<close>. Freed in reverse order, the third and the second are
  reclaimed and the watermark is 20; the first message now seems to end at 25, is not
  reclaimed, and the watermark stays 20. Every store and read of the sequence is inside
  the array.
\<close>

theorem pool_conservation_overflow:
  "map_sum id (map_option (\<lambda>st. (used (fst st), snd st)))
     (run_calls ilp32
        [Alloc False 0, Alloc False 0xFFFFFFD8, Alloc False 5, Free False, Free False, Free False]
        (ready_pool, []))
   = Inr (Some (20, []))"
  by (simp add: log_pool_alloc_def log_pool_free_def ready_pool_def log_pool_init_def
      boot_pool_def Let_def semaphore_take_def semaphore_give_def LOG_MSG_SIZE_def
      LOG_BUFFER_SIZE_BYTES_def ilp32_def arena_store_def arena_load_size_t_def in_arena_def
      length_encode load_size_t_def store_bytes_def encode_def decode_def zero_memory_def)

text \<open>
  What does hold: when no request comes near the range of \<^verbatim>\<open>size_t\<close>, so that no size
  computation wraps around, every store and read of a sequence stays inside the array
  and a balanced sequence brings the watermark back to where it started. The invariant
  \<open>live_ok\<close> says that the messages not yet freed are stacked in the arena without gaps
  from \<open>base\<close> up to \<open>tp\<close>, each with its size in its \<^verbatim>\<open>args_buffer_size\<close>.
\<close>

fun modest :: "abi \<Rightarrow> pool_call \<Rightarrow> bool" where
  "modest A (Alloc isr args_size) =
     (offsetof_args_buffer_size A + 4 \<le> sizeof_log_msg A
      \<and> sizeof_log_msg A + unat args_size + 1024 < 2 ^ 32)"
| "modest A (Free isr) = True"

fun live_ok :: "abi \<Rightarrow> memory \<Rightarrow> size_t option list \<Rightarrow> size_t \<Rightarrow> size_t \<Rightarrow> bool" where
  "live_ok A ar [] tp base = (tp = base)"
| "live_ok A ar (None # live) tp base = live_ok A ar live tp base"
| "live_ok A ar (Some h # live) tp base =
     (unat h + offsetof_args_buffer_size A + 4 \<le> unat tp
      \<and> h + LOG_MSG_SIZE A (load_size_t ar (unat h + offsetof_args_buffer_size A)) = tp
      \<and> live_ok A ar live h base)"

definition pool_inv :: "abi \<Rightarrow> pool \<Rightarrow> size_t option list \<Rightarrow> size_t \<Rightarrow> bool" where
  "pool_inv A s live base =
     (mutex_created s \<and> \<not> mutex_taken s \<and> used s \<le> LOG_BUFFER_SIZE_BYTES
      \<and> live_ok A (arena s) live (used s) base)"

lemma live_ok_update:
  "live_ok A ar live tp base \<Longrightarrow> unat tp \<le> off \<Longrightarrow> live_ok A (store_bytes ar off bs) live tp base"
proof (induction A ar live tp base rule: live_ok.induct)
  case (1 A ar tp base)
  then show ?case by simp
next
  case (2 A ar live tp base)
  then show ?case by simp
next
  case (3 A ar h live tp base)
  then have below: "unat h + offsetof_args_buffer_size A + 4 \<le> off" and "unat h \<le> off"
    by auto
  with 3 show ?case
    by (simp add: load_size_t_store_other)
qed

lemma modest_total:
  assumes "sizeof_log_msg A + unat args_size + 1024 < 2 ^ 32"
    and "u \<le> LOG_BUFFER_SIZE_BYTES"
  shows "unat (u + LOG_MSG_SIZE A args_size) = unat u + sizeof_log_msg A + unat args_size"
proof -
  have u: "unat u \<le> 1024"
    using assms(2) by (simp add: word_le_nat_alt LOG_BUFFER_SIZE_BYTES_def)
  have h: "unat (of_nat (sizeof_log_msg A) :: size_t) = sizeof_log_msg A"
    using assms(1) by (simp add: unat_of_nat)
  have t: "unat (LOG_MSG_SIZE A args_size) = sizeof_log_msg A + unat args_size"
    unfolding LOG_MSG_SIZE_def using assms(1) h by (simp add: unat_add_lem [THEN iffD1])
  show ?thesis
    using assms(1) t u by (simp add: unat_add_lem [THEN iffD1])
qed

lemma pool_inv_alloc:
  assumes inv: "pool_inv A s live base" and m: "modest A (Alloc isr args_size)"
  shows "\<exists>r s'. log_pool_alloc A isr args_size s = Inr (r, s') \<and> pool_inv A s' (r # live) base"
proof (cases "LOG_BUFFER_SIZE_BYTES < used s + LOG_MSG_SIZE A args_size")
  case True
  with inv have "log_pool_alloc A isr args_size s = Inr (None, s)"
    by (auto simp: pool_inv_def log_pool_alloc_def Let_def semaphore_take_def semaphore_give_def)
  with inv show ?thesis by (simp add: pool_inv_def)
next
  case False
  let ?tp = "used s + LOG_MSG_SIZE A args_size"
  let ?off = "unat (used s) + offsetof_args_buffer_size A"
  let ?ar = "store_bytes (arena s) ?off (encode args_size)"
  from inv have ub: "used s \<le> LOG_BUFFER_SIZE_BYTES" and lo: "live_ok A (arena s) live (used s) base"
    by (simp_all add: pool_inv_def)
  have tp: "unat ?tp = unat (used s) + sizeof_log_msg A + unat args_size"
    using m ub by (simp add: modest_total)
  from False have "unat ?tp \<le> 1024"
    by (simp add: word_less_nat_alt LOG_BUFFER_SIZE_BYTES_def)
  with tp m have inside: "in_arena ?off (length (encode args_size))"
    by (simp add: in_arena_def LOG_BUFFER_SIZE_BYTES_def length_encode)
  from False inv inside
  have a: "log_pool_alloc A isr args_size s = Inr (Some (used s), s\<lparr>used := ?tp, arena := ?ar\<rparr>)"
    by (auto simp: pool_inv_def log_pool_alloc_def Let_def semaphore_take_def semaphore_give_def
        arena_store_def)
  have "live_ok A ?ar live (used s) base"
    using lo by (rule live_ok_update) simp
  moreover have "unat (used s) + offsetof_args_buffer_size A + 4 \<le> unat ?tp"
    using tp m by simp
  ultimately have "live_ok A ?ar (Some (used s) # live) ?tp base"
    by (simp add: load_size_t_store_same)
  with inv False a show ?thesis
    by (simp add: pool_inv_def)
qed

lemma pool_inv_free:
  assumes inv: "pool_inv A s (msg # live) base"
  shows "\<exists>s'. log_pool_free A isr msg s = Inr s' \<and> pool_inv A s' live base"
proof (cases msg)
  case None
  with inv show ?thesis by (simp add: pool_inv_def log_pool_free_def)
next
  case (Some h)
  let ?off = "unat h + offsetof_args_buffer_size A"
  let ?size = "LOG_MSG_SIZE A (load_size_t (arena s) ?off)"
  from inv Some have tp: "h + ?size = used s" and lt: "?off + 4 \<le> unat (used s)"
    and rest: "live_ok A (arena s) live h base" and ub: "used s \<le> LOG_BUFFER_SIZE_BYTES"
    and mx: "mutex_created s" "\<not> mutex_taken s"
    by (simp_all add: pool_inv_def)
  from ub have ub': "unat (used s) \<le> 1024"
    by (simp add: word_le_nat_alt LOG_BUFFER_SIZE_BYTES_def)
  with lt have inside: "in_arena ?off 4"
    by (simp add: in_arena_def LOG_BUFFER_SIZE_BYTES_def)
  from tp have rb: "used s - ?size = h"
    by (metis add_diff_cancel_right')
  from mx tp rb inside have "log_pool_free A isr msg s = Inr (s\<lparr>used := h\<rparr>)"
    by (simp add: Some log_pool_free_def Let_def semaphore_take_def semaphore_give_def
        arena_load_size_t_def)
  moreover from lt ub' have "unat h \<le> 1024" by simp
  then have "h \<le> LOG_BUFFER_SIZE_BYTES"
    by (simp add: word_le_nat_alt LOG_BUFFER_SIZE_BYTES_def)
  ultimately show ?thesis
    using rest mx by (simp add: pool_inv_def)
qed

lemma run_calls_inv:
  "\<forall>c \<in> set calls. modest A c \<Longrightarrow> pool_inv A s live base \<Longrightarrow>
     \<exists>r. run_calls A calls (s, live) = Inr r
       \<and> (\<forall>s' live'. r = Some (s', live') \<longrightarrow> pool_inv A s' live' base)"
proof (induction calls arbitrary: s live)
  case Nil
  then show ?case by simp
next
  case (Cons c calls)
  show ?case
  proof (cases c)
    case (Alloc isr args_size)
    with Cons.prems obtain r s1 where a: "log_pool_alloc A isr args_size s = Inr (r, s1)"
      and inv: "pool_inv A s1 (r # live) base"
      using pool_inv_alloc [of A s live base isr args_size] by auto
    with Cons.IH [of s1 "r # live"] Cons.prems Alloc show ?thesis by simp
  next
    case (Free isr)
    show ?thesis
    proof (cases live)
      case Nil
      with Free show ?thesis by simp
    next
      case (Cons msg rest)
      with Cons.prems obtain s1 where f: "log_pool_free A isr msg s = Inr s1"
        and inv: "pool_inv A s1 rest base"
        using pool_inv_free [of A s msg rest base isr] by auto
      with Cons.IH [of s1 rest] Cons.prems Free Cons show ?thesis by simp
    qed
  qed
qed

lemma pool_conservation_modest:
  assumes "\<forall>c \<in> set calls. modest A c"
    and "mutex_created s" and "\<not> mutex_taken s" and "used s \<le> LOG_BUFFER_SIZE_BYTES"
  shows "\<exists>r. run_calls A calls (s, []) = Inr r \<and> (\<forall>s'. r = Some (s', []) \<longrightarrow> used s' = used s)"
proof -
  have "pool_inv A s [] (used s)"
    using assms(2-4) by (simp add: pool_inv_def)
  from run_calls_inv [OF assms(1) this] show ?thesis
    by (auto simp: pool_inv_def)
qed

section \<open>Message Queue and submission (\<^verbatim>\<open>log_queue.c\<close>, \<^verbatim>\<open>log_core.c\<close>)\<close>

definition LOG_QUEUE_SIZE :: nat where
  "LOG_QUEUE_SIZE = 32"

record queue =
  queue_created :: bool
  items :: "size_t list"

text \<open>
  Modelled from the spec: the RTOS queue (section 4.4 of the specification; FreeRTOS is
  not part of the repository), a bounded FIFO of handles. \<^verbatim>\<open>xQueueSend\<close> with a timeout
  of 0 and \<^verbatim>\<open>xQueueSendFromISR\<close> append the handle when fewer than \<^verbatim>\<open>LOG_QUEUE_SIZE\<close>
  handles wait in the queue and fail at once otherwise.
\<close>

definition queue_send :: "bool \<Rightarrow> queue \<Rightarrow> size_t \<Rightarrow> bool \<times> queue" where
  "queue_send isr q msg =
     (if length (items q) < LOG_QUEUE_SIZE then (True, q\<lparr>items := items q @ [msg]\<rparr>)
      else (False, q))"

definition log_queue_init :: "bool \<Rightarrow> queue \<Rightarrow> status \<times> queue" where
  "log_queue_init created q =
     (if \<not> created then (IO_ERROR, q\<lparr>queue_created := False\<rparr>)
      else (OK, q\<lparr>queue_created := True, items := []\<rparr>))"

definition log_queue_send :: "bool \<Rightarrow> size_t option \<Rightarrow> queue \<Rightarrow> status \<times> queue" where
  "log_queue_send isr msg q =
     (case msg of
        None \<Rightarrow> (INVALID_ARGUMENT, q)
      | Some p \<Rightarrow>
          if \<not> queue_created q then (IO_ERROR, q)
          else
            (case queue_send isr q p of
               (ret, q') \<Rightarrow> (if ret then OK else NO_SPACE, q')))"

text \<open>The module-scoped state of the logger that a submission works on.\<close>

record logger =
  pool_state :: pool
  queue_state :: queue

text \<open>
  \<^verbatim>\<open>log_queue_deferred_message\<close>. The strings \<^verbatim>\<open>module_name\<close> and \<^verbatim>\<open>function_name\<close>
  are only stored, as pointers, so the model takes their addresses; the format string is
  also read, so it is given by its address and its characters (\<open>None\<close> is the null
  pointer). The four assignments to the header fields store into the bytes of the
  allocated message in the arena, in the order of the source.
\<close>

type_synonym c_string = "size_t \<times> string"

definition then_store :: "error + pool \<Rightarrow> nat \<Rightarrow> byte list \<Rightarrow> error + pool" where
  "then_store r off bs = (case r of Inl e \<Rightarrow> Inl e | Inr p \<Rightarrow> arena_store off bs p)"

definition fill_header ::
  "abi \<Rightarrow> size_t \<Rightarrow> size_t \<Rightarrow> byte \<Rightarrow> size_t \<Rightarrow> size_t \<Rightarrow> pool \<Rightarrow> error + pool" where
  "fill_header A module func level fmt_ptr msg p =
     then_store
       (then_store
          (then_store
             (arena_store (unat msg) (encode module) p)
             (unat msg + offsetof_function_name A) (encode func))
          (unat msg + offsetof_log_level A) [level])
       (unat msg + offsetof_fmt_str A) (encode fmt_ptr)"

text \<open>
  \<^verbatim>\<open>msg->args_buffer\<close> is the arena from the end of the header on. The capture works on
  that memory with offsets counted from there; what it has written, the bytes at the
  offsets below the count it returns, must lie inside the array.
\<close>

definition args_buffer :: "abi \<Rightarrow> size_t \<Rightarrow> pool \<Rightarrow> memory" where
  "args_buffer A msg p = (\<lambda>i. arena p (unat msg + sizeof_log_msg A + i))"

definition set_args_buffer :: "abi \<Rightarrow> size_t \<Rightarrow> nat \<Rightarrow> memory option \<Rightarrow> pool \<Rightarrow> error + pool" where
  "set_args_buffer A msg bytes_written buffer p =
     (case buffer of
        None \<Rightarrow> Inr p
      | Some b \<Rightarrow>
          if 0 < bytes_written \<and> \<not> in_arena (unat msg + sizeof_log_msg A) bytes_written
          then Inl Out_Of_Bounds
          else Inr (p\<lparr>arena := (\<lambda>j. if unat msg + sizeof_log_msg A \<le> j
                                    then b (j - (unat msg + sizeof_log_msg A))
                                    else arena p j)\<rparr>))"

text \<open>The last statement, \<^verbatim>\<open>return log_queue_send(msg)\<close>.\<close>

definition send_message :: "bool \<Rightarrow> size_t \<Rightarrow> pool \<Rightarrow> logger \<Rightarrow> status \<times> logger" where
  "send_message isr msg p s =
     (case log_queue_send isr (Some msg) (queue_state s) of
        (st, q') \<Rightarrow> (st, s\<lparr>pool_state := p, queue_state := q'\<rparr>))"

text \<open>
  The statements behind the call of the capture:
  \<^verbatim>\<open>if (bytes_written == 0) { log_pool_free(msg); va_end(args); return -EIO; }\<close>
  and, when that exit is not taken, \<^verbatim>\<open>return log_queue_send(msg)\<close>.
\<close>

definition after_capture ::
  "abi \<Rightarrow> bool \<Rightarrow> size_t \<Rightarrow> nat \<Rightarrow> pool \<Rightarrow> logger \<Rightarrow> error + (status \<times> logger)" where
  "after_capture A isr msg bytes_written p s =
     (if bytes_written = 0 then
        (case log_pool_free A isr (Some msg) p of
           Inl e \<Rightarrow> Inl e
         | Inr p' \<Rightarrow> Inr (IO_ERROR, s\<lparr>pool_state := p'\<rparr>))
      else Inr (send_message isr msg p s))"

definition log_queue_deferred_message ::
  "abi \<Rightarrow> bool \<Rightarrow> size_t \<Rightarrow> size_t \<Rightarrow> byte \<Rightarrow> c_string option \<Rightarrow> argument list
     \<Rightarrow> logger \<Rightarrow> error + (status \<times> logger)" where
  "log_queue_deferred_message A isr module func level fmt args s =
     (case fmt of
        None \<Rightarrow> Inr (INVALID_ARGUMENT, s)
      | Some (fmt_ptr, f) \<Rightarrow>
        (case log_format_calculate_buffer_size A (Some f) of
           Inl e \<Rightarrow> Inl e
         | Inr n \<Rightarrow>
             (let args_buffer_size = (of_nat n :: size_t)
              in case log_pool_alloc A isr args_buffer_size (pool_state s) of
                   Inl e \<Rightarrow> Inl e
                 | Inr (None, p1) \<Rightarrow> Inr (NO_SPACE, s\<lparr>pool_state := p1\<rparr>)
                 | Inr (Some msg, p1) \<Rightarrow>
                     (case fill_header A module func level fmt_ptr msg p1 of
                        Inl e \<Rightarrow> Inl e
                      | Inr p2 \<Rightarrow>
                          if 0 < args_buffer_size then
                            (case log_format_copy_args_to_buffer A (Some (args_buffer A msg p2))
                                    (unat args_buffer_size) (Some f) args of
                               Inl e \<Rightarrow> Inl e
                             | Inr (bytes_written, buffer) \<Rightarrow>
                                 (case set_args_buffer A msg bytes_written buffer p2 of
                                    Inl e \<Rightarrow> Inl e
                                  | Inr p3 \<Rightarrow> after_capture A isr msg bytes_written p3 s))
                          else Inr (send_message isr msg p2 s)))))"

definition boot_logger :: logger where
  "boot_logger = \<lparr> pool_state = boot_pool, queue_state = \<lparr> queue_created = False, items = [] \<rparr> \<rparr>"

definition ready_logger :: logger where
  "ready_logger = \<lparr> pool_state = ready_pool,
                    queue_state = snd (log_queue_init True \<lparr> queue_created = False, items = [] \<rparr>) \<rparr>"

text \<open>
  A logger whose pool is initialised and whose queue was not created
  (\<^verbatim>\<open>log_queue_init\<close> has failed or has not run).
\<close>

definition queueless_logger :: logger where
  "queueless_logger = \<lparr> pool_state = ready_pool, queue_state = \<lparr> queue_created = False, items = [] \<rparr> \<rparr>"

subsection \<open>The submit algorithm\<close>

text \<open>
  The fields of \<^verbatim>\<open>log_msg_t\<close> lie in the header one behind the other in the order of
  their declaration, as they do on the default target.
\<close>

definition header_layout :: "abi \<Rightarrow> bool" where
  "header_layout A =
     (4 \<le> offsetof_function_name A
      \<and> offsetof_function_name A + 4 \<le> offsetof_log_level A
      \<and> offsetof_log_level A + 1 \<le> offsetof_fmt_str A
      \<and> offsetof_fmt_str A + 4 \<le> offsetof_args_buffer_size A
      \<and> offsetof_args_buffer_size A + 4 \<le> sizeof_log_msg A)"

text \<open>
  The arena \<open>ar\<close> holds at the offset \<open>b\<close> a message with the given header fields whose
  argument buffer holds the given bytes.
\<close>

definition message_at ::
  "abi \<Rightarrow> memory \<Rightarrow> nat \<Rightarrow> size_t \<Rightarrow> size_t \<Rightarrow> byte \<Rightarrow> size_t \<Rightarrow> byte list \<Rightarrow> bool" where
  "message_at A ar b module func level fmt_ptr captured =
     (load_size_t ar b = module
      \<and> load_size_t ar (b + offsetof_function_name A) = func
      \<and> ar (b + offsetof_log_level A) = level
      \<and> load_size_t ar (b + offsetof_fmt_str A) = fmt_ptr
      \<and> load_size_t ar (b + offsetof_args_buffer_size A) = of_nat (length captured)
      \<and> map ar [b + sizeof_log_msg A ..< b + sizeof_log_msg A + length captured] = captured)"

lemma log_pool_alloc_fits:
  assumes "mutex_created p" and "\<not> (isr \<and> mutex_taken p)"
    and fits: "unat (used p) + sizeof_log_msg A + n \<le> 1024"
    and field: "offsetof_args_buffer_size A + 4 \<le> sizeof_log_msg A"
  shows "log_pool_alloc A isr (of_nat n) p =
           Inr (Some (used p),
                p\<lparr>mutex_taken := False, used := used p + of_nat (sizeof_log_msg A + n),
                  arena := store_bytes (arena p) (unat (used p) + offsetof_args_buffer_size A)
                             (encode (of_nat n))\<rparr>)"
proof -
  have total: "LOG_MSG_SIZE A (of_nat n) = of_nat (sizeof_log_msg A + n)"
    by (simp add: LOG_MSG_SIZE_def)
  have "unat (of_nat (sizeof_log_msg A + n) :: size_t) = sizeof_log_msg A + n"
    using fits by (simp add: unat_of_nat del: of_nat_add)
  then have "unat (used p + of_nat (sizeof_log_msg A + n)) = unat (used p) + (sizeof_log_msg A + n)"
    using fits by (simp add: unat_add_lem [THEN iffD1] del: of_nat_add)
  with fits have guard: "\<not> LOG_BUFFER_SIZE_BYTES < used p + of_nat (sizeof_log_msg A + n)"
    by (simp add: word_less_nat_alt LOG_BUFFER_SIZE_BYTES_def del: of_nat_add)
  have inside: "in_arena (unat (used p) + offsetof_args_buffer_size A) (length (encode (of_nat n :: size_t)))"
    using fits field by (simp add: in_arena_def LOG_BUFFER_SIZE_BYTES_def length_encode)
  show ?thesis
    using assms(1,2) guard inside
    by (auto simp: log_pool_alloc_def Let_def total semaphore_take_def semaphore_give_def
        arena_store_def simp del: of_nat_add)
qed

lemma fill_header_fits:
  assumes "header_layout A" and "unat msg + sizeof_log_msg A \<le> 1024"
  shows "fill_header A mn fn lvl a msg p =
           Inr (p\<lparr>arena :=
                  store_bytes
                    (store_bytes
                       (store_bytes
                          (store_bytes (arena p) (unat msg) (encode mn))
                          (unat msg + offsetof_function_name A) (encode fn))
                       (unat msg + offsetof_log_level A) [lvl])
                    (unat msg + offsetof_fmt_str A) (encode a)\<rparr>)"
  using assms
  by (simp add: fill_header_def then_store_def arena_store_def in_arena_def header_layout_def
      length_encode LOG_BUFFER_SIZE_BYTES_def)

text \<open>
  The arena after the stores of an accepted submission: the size field, the four header
  fields, and the captured bytes behind the header.
\<close>

definition message_stored ::
  "abi \<Rightarrow> memory \<Rightarrow> nat \<Rightarrow> size_t \<Rightarrow> size_t \<Rightarrow> byte \<Rightarrow> size_t \<Rightarrow> nat \<Rightarrow> byte list \<Rightarrow> memory" where
  "message_stored A ar b module func level fmt_ptr n area =
     (\<lambda>j. if b + sizeof_log_msg A \<le> j \<and> j < b + sizeof_log_msg A + n
          then area ! (j - (b + sizeof_log_msg A))
          else store_bytes
                 (store_bytes
                    (store_bytes
                       (store_bytes
                          (store_bytes ar (b + offsetof_args_buffer_size A) (encode (of_nat n)))
                          b (encode module))
                       (b + offsetof_function_name A) (encode func))
                    (b + offsetof_log_level A) [level])
                 (b + offsetof_fmt_str A) (encode fmt_ptr) j)"

lemma deferred_message_accepted:
  assumes size: "log_format_calculate_buffer_size A (Some f) = Inr n"
    and enough: "n \<le> length (va_start A args)"
    and mutex: "mutex_created (pool_state s)" "\<not> (isr \<and> mutex_taken (pool_state s))"
    and fits: "unat (used (pool_state s)) + sizeof_log_msg A + n \<le> 1024"
    and layout: "header_layout A"
  shows "log_queue_deferred_message A isr mn fn lvl (Some (a, f)) args s =
           Inr (send_message isr (used (pool_state s))
                  ((pool_state s)\<lparr>mutex_taken := False,
                     used := used (pool_state s) + of_nat (sizeof_log_msg A + n),
                     arena := message_stored A (arena (pool_state s)) (unat (used (pool_state s)))
                                mn fn lvl a n (va_start A args)\<rparr>) s)"
proof -
  define p where "p = pool_state s"
  define b where "b = unat (used p)"
  define H where "H = sizeof_log_msg A"
  define p1 where "p1 = p\<lparr>mutex_taken := False, used := used p + of_nat (H + n),
      arena := store_bytes (arena p) (b + offsetof_args_buffer_size A) (encode (of_nat n))\<rparr>"
  define ar5 where "ar5 =
      store_bytes (store_bytes (store_bytes (store_bytes (arena p1) b (encode mn))
        (b + offsetof_function_name A) (encode fn)) (b + offsetof_log_level A) [lvl])
        (b + offsetof_fmt_str A) (encode a)"
  define p2 where "p2 = p1\<lparr>arena := ar5\<rparr>"
  have field: "offsetof_args_buffer_size A + 4 \<le> sizeof_log_msg A"
    using layout by (simp add: header_layout_def)
  have alloc: "log_pool_alloc A isr (of_nat n) p = Inr (Some (used p), p1)"
    using log_pool_alloc_fits [OF mutex [folded p_def] fits [folded p_def] field]
    by (simp add: p1_def b_def H_def)
  have hdr: "fill_header A mn fn lvl a (used p) p1 = Inr p2"
    using fill_header_fits [OF layout, of "used p" mn fn lvl a p1] fits
    by (simp add: p2_def ar5_def b_def p_def)
  have n32: "n < 2 ^ 32"
    using fits by simp
  then have un: "unat (of_nat n :: size_t) = n"
    by (simp add: unat_of_nat)
  have pos: "0 < (of_nat n :: size_t) \<longleftrightarrow> 0 < n"
    using un by (simp add: word_less_nat_alt)
  have final: "p2\<lparr>arena := message_stored A (arena p) b mn fn lvl a n (va_start A args)\<rparr>
      = p\<lparr>mutex_taken := False, used := used p + of_nat (H + n),
          arena := message_stored A (arena p) b mn fn lvl a n (va_start A args)\<rparr>"
    by (simp add: p2_def p1_def)
  have ar5: "ar5 = message_stored A (arena p) b mn fn lvl a 0 (va_start A args)" if "n = 0"
    using that by (auto simp: ar5_def p1_def message_stored_def fun_eq_iff)
  show ?thesis
  proof (cases "n = 0")
    case True
    have "p2 = p2\<lparr>arena := message_stored A (arena p) b mn fn lvl a n (va_start A args)\<rparr>"
      using ar5 [OF True] True by (simp add: p2_def)
    with final have "p2 = p\<lparr>mutex_taken := False, used := used p + of_nat (H + n),
          arena := message_stored A (arena p) b mn fn lvl a n (va_start A args)\<rparr>"
      by simp
    with size alloc hdr True show ?thesis
      by (simp add: log_queue_deferred_message_def p_def b_def H_def)
  next
    case False
    let ?buf = "args_buffer A (used p) p2"
    let ?m' = "\<lambda>i. if i < n then va_start A args ! i else ?buf i"
    have cap: "log_format_copy_args_to_buffer A (Some ?buf) (unat (of_nat n :: size_t)) (Some f) args
        = Inr (n, Some ?m')"
      using copy_args_exact [OF size enough, of ?buf] un by simp
    have inside: "in_arena (unat (used p) + sizeof_log_msg A) n"
      using fits by (simp add: in_arena_def LOG_BUFFER_SIZE_BYTES_def p_def)
    have "(\<lambda>j. if unat (used p) + sizeof_log_msg A \<le> j
               then ?m' (j - (unat (used p) + sizeof_log_msg A)) else arena p2 j)
        = message_stored A (arena p) b mn fn lvl a n (va_start A args)"
    proof
      fix j
      show "(if unat (used p) + sizeof_log_msg A \<le> j
             then ?m' (j - (unat (used p) + sizeof_log_msg A)) else arena p2 j)
          = message_stored A (arena p) b mn fn lvl a n (va_start A args) j"
        by (auto simp: message_stored_def args_buffer_def p2_def ar5_def p1_def b_def)
    qed
    then have buf: "set_args_buffer A (used p) n (Some ?m') p2
        = Inr (p2\<lparr>arena := message_stored A (arena p) b mn fn lvl a n (va_start A args)\<rparr>)"
      using inside by (simp add: set_args_buffer_def)
    from size alloc hdr False pos cap buf final show ?thesis
      by (simp add: log_queue_deferred_message_def after_capture_def p_def b_def H_def)
  qed
qed

lemma message_stored_header:
  "j < b + sizeof_log_msg A \<Longrightarrow>
     message_stored A ar b mn fn lvl a n area j =
       store_bytes
         (store_bytes
            (store_bytes
               (store_bytes
                  (store_bytes ar (b + offsetof_args_buffer_size A) (encode (of_nat n)))
                  b (encode mn))
               (b + offsetof_function_name A) (encode fn))
            (b + offsetof_log_level A) [lvl])
         (b + offsetof_fmt_str A) (encode a) j"
  by (simp add: message_stored_def)

lemma message_stored_frame:
  assumes "header_layout A" and "j < b \<or> b + sizeof_log_msg A + n \<le> j"
  shows "message_stored A ar b mn fn lvl a n area j = ar j"
  using assms
  by (auto simp: message_stored_def header_layout_def store_bytes_def length_encode)

lemma message_stored_holds:
  assumes layout: "header_layout A" and enough: "n \<le> length area"
  shows "message_at A (message_stored A ar b mn fn lvl a n area) b mn fn lvl a (take n area)"
proof -
  let ?M = "message_stored A ar b mn fn lvl a n area"
  let ?S = "store_bytes
         (store_bytes
            (store_bytes
               (store_bytes
                  (store_bytes ar (b + offsetof_args_buffer_size A) (encode (of_nat n)))
                  b (encode mn))
               (b + offsetof_function_name A) (encode fn))
            (b + offsetof_log_level A) [lvl])
         (b + offsetof_fmt_str A) (encode a)"
  from layout have o: "4 \<le> offsetof_function_name A"
    "offsetof_function_name A + 4 \<le> offsetof_log_level A"
    "offsetof_log_level A + 1 \<le> offsetof_fmt_str A"
    "offsetof_fmt_str A + 4 \<le> offsetof_args_buffer_size A"
    "offsetof_args_buffer_size A + 4 \<le> sizeof_log_msg A"
    by (simp_all add: header_layout_def)
  have hdr: "load_size_t ?M off = load_size_t ?S off" if "off + 4 \<le> b + sizeof_log_msg A" for off
    using that by (intro load_size_t_cong) (simp add: message_stored_header)
  have "load_size_t ?S b = mn"
    using o by (simp add: load_size_t_store_other load_size_t_store_same length_encode)
  with o have f1: "load_size_t ?M b = mn"
    by (simp add: hdr)
  have "load_size_t ?S (b + offsetof_function_name A) = fn"
    using o by (simp add: load_size_t_store_other load_size_t_store_same length_encode)
  with o have f2: "load_size_t ?M (b + offsetof_function_name A) = fn"
    by (simp add: hdr)
  have "?S (b + offsetof_log_level A) = lvl"
    using o by (simp add: store_bytes_def length_encode)
  with o have f3: "?M (b + offsetof_log_level A) = lvl"
    by (simp add: message_stored_header)
  have "load_size_t ?S (b + offsetof_fmt_str A) = a"
    using o by (simp add: load_size_t_store_other load_size_t_store_same length_encode)
  with o have f4: "load_size_t ?M (b + offsetof_fmt_str A) = a"
    by (simp add: hdr)
  have "load_size_t ?S (b + offsetof_args_buffer_size A) = of_nat n"
    using o by (simp add: load_size_t_store_other load_size_t_store_same length_encode)
  with o have f5: "load_size_t ?M (b + offsetof_args_buffer_size A) = of_nat n"
    by (simp add: hdr)
  have f6: "map ?M [b + sizeof_log_msg A ..< b + sizeof_log_msg A + n] = take n area"
  proof (rule nth_equalityI)
    show "length (map ?M [b + sizeof_log_msg A ..< b + sizeof_log_msg A + n]) = length (take n area)"
      using enough by simp
  next
    fix i assume "i < length (map ?M [b + sizeof_log_msg A ..< b + sizeof_log_msg A + n])"
    then have "i < n" by simp
    then show "map ?M [b + sizeof_log_msg A ..< b + sizeof_log_msg A + n] ! i = take n area ! i"
      by (simp add: message_stored_def)
  qed
  from f1 f2 f3 f4 f5 f6 enough show ?thesis
    by (simp add: message_at_def)
qed

text \<open>
  The capture never returns 0 after the size computation has returned a size that is
  positive as a \<^verbatim>\<open>size_t\<close>: the two functions scan the format string alike, so a
  capture that had room and has written nothing has met no conversion specification that
  captures bytes, and the size computed for such a string is 0.
\<close>

lemma copy_args_positive:
  assumes size: "log_format_calculate_buffer_size A (Some f) = Inr n"
    and pos: "0 < (of_nat n :: size_t)"
    and cap: "log_format_copy_args_to_buffer A (Some m) (unat (of_nat n :: size_t)) (Some f) args
            = Inr (0, buffer)"
  shows False
proof -
  from pos have room: "0 < unat (of_nat n :: size_t)"
    by (simp add: word_less_nat_alt)
  with cap obtain m' where run: "copy_loop A (unat (of_nat n :: size_t)) f (0, va_start A args, m) = Inr (0, m')"
    by (auto simp: copy_args_positive_capacity split: sum.splits)
  from size have "calculate_loop A f 0 = Inr n"
    by (simp add: log_format_calculate_buffer_size_def)
  from copy_loop_nothing_captured [OF this run room] have "n = 0" .
  with pos show False
    by simp
qed

text \<open>
  So no submission takes the exit that returns \<open>IO_ERROR\<close> after an empty capture:
  whenever a submission returns \<open>IO_ERROR\<close>, the queue was not created.
\<close>

lemma io_error_only_without_queue:
  assumes run: "log_queue_deferred_message A isr mn fn lvl fmt args s = Inr (IO_ERROR, t)"
  shows "\<not> queue_created (queue_state s)"
proof -
  have send: "send_message isr msg p s = (IO_ERROR, t) \<Longrightarrow> \<not> queue_created (queue_state s)"
    for msg p
    by (auto simp: send_message_def log_queue_send_def queue_send_def
        split: prod.splits if_splits)
  from run show ?thesis
    by (auto simp: log_queue_deferred_message_def after_capture_def Let_def
        dest: send copy_args_positive
        split: if_splits sum.splits prod.splits option.splits)
qed

text \<open>
  The exit itself: taken with the message on top of the pool, where a message is right
  after its allocation, \<^verbatim>\<open>log_pool_free\<close> moves the watermark back to the offset of the
  message.
\<close>

lemma log_pool_free_top:
  assumes "mutex_created p" and "\<not> (isr \<and> mutex_taken p)"
    and inside: "in_arena (unat msg + offsetof_args_buffer_size A) 4"
    and top: "msg + LOG_MSG_SIZE A (load_size_t (arena p) (unat msg + offsetof_args_buffer_size A)) = used p"
  shows "log_pool_free A isr (Some msg) p = Inr (p\<lparr>mutex_taken := False, used := msg\<rparr>)"
proof -
  from top have "used p - LOG_MSG_SIZE A (load_size_t (arena p) (unat msg + offsetof_args_buffer_size A)) = msg"
    by (metis add_diff_cancel_right')
  with assms show ?thesis
    by (auto simp: log_pool_free_def Let_def semaphore_take_def semaphore_give_def
        arena_load_size_t_def)
qed

lemma log_pool_alloc_refused:
  assumes "\<not> mutex_created p \<or> (isr \<and> mutex_taken p)"
  shows "log_pool_alloc A isr args_size p = Inr (None, p)"
  using assms by (auto simp: log_pool_alloc_def Let_def semaphore_take_def)

lemma log_pool_alloc_full:
  assumes "mutex_created p" and "\<not> (isr \<and> mutex_taken p)"
    and over: "1024 < unat (used p) + sizeof_log_msg A + n"
    and fits: "unat (used p) + sizeof_log_msg A + n < 2 ^ 32"
  shows "log_pool_alloc A isr (of_nat n) p = Inr (None, p\<lparr>mutex_taken := False\<rparr>)"
proof -
  have total: "LOG_MSG_SIZE A (of_nat n) = of_nat (sizeof_log_msg A + n)"
    by (simp add: LOG_MSG_SIZE_def)
  have "unat (of_nat (sizeof_log_msg A + n) :: size_t) = sizeof_log_msg A + n"
    using fits by (simp add: unat_of_nat del: of_nat_add)
  then have "unat (used p + of_nat (sizeof_log_msg A + n)) = unat (used p) + (sizeof_log_msg A + n)"
    using fits by (simp add: unat_add_lem [THEN iffD1] del: of_nat_add)
  with over have guard: "LOG_BUFFER_SIZE_BYTES < used p + of_nat (sizeof_log_msg A + n)"
    by (simp add: word_less_nat_alt LOG_BUFFER_SIZE_BYTES_def del: of_nat_add)
  show ?thesis
    using assms(1,2) guard
    by (auto simp: log_pool_alloc_def Let_def total semaphore_take_def semaphore_give_def
        simp del: of_nat_add)
qed

text \<open>
  At the point where the capture returns, the message of the submission lies on top of
  the pool: its \<^verbatim>\<open>args_buffer_size\<close> is inside the array and holds \<open>n\<close>, and the message
  ends at the watermark. Taken there, the exit behind an empty capture would move the
  watermark back to where it was before the call.
\<close>

lemma accepted_message_on_top:
  assumes layout: "header_layout A" and enough: "n \<le> length area"
    and fits: "unat u + sizeof_log_msg A + n \<le> 1024"
  shows "in_arena (unat u + offsetof_args_buffer_size A) 4
     \<and> u + LOG_MSG_SIZE A (load_size_t (message_stored A ar (unat u) mn fn lvl a n area)
                               (unat u + offsetof_args_buffer_size A))
         = u + of_nat (sizeof_log_msg A + n)"
proof -
  from message_stored_holds [OF layout enough, of ar "unat u" mn fn lvl a]
  have "load_size_t (message_stored A ar (unat u) mn fn lvl a n area)
          (unat u + offsetof_args_buffer_size A) = of_nat n"
    using enough by (simp add: message_at_def)
  moreover from layout fits have "in_arena (unat u + offsetof_args_buffer_size A) 4"
    by (simp add: in_arena_def header_layout_def LOG_BUFFER_SIZE_BYTES_def)
  ultimately show ?thesis
    by (simp add: LOG_MSG_SIZE_def)
qed

lemma log_pool_alloc_fails:
  assumes "\<not> mutex_created p \<or> (isr \<and> mutex_taken p)
      \<or> LOG_BUFFER_SIZE_BYTES < used p + LOG_MSG_SIZE A args_size"
  shows "\<exists>p'. log_pool_alloc A isr args_size p = Inr (None, p')"
proof (cases "\<not> mutex_created p \<or> (isr \<and> mutex_taken p)")
  case True
  then show ?thesis
    by (simp add: log_pool_alloc_refused)
next
  case False
  with assms have "LOG_BUFFER_SIZE_BYTES < used p + LOG_MSG_SIZE A args_size"
    by blast
  with False show ?thesis
    by (auto simp: log_pool_alloc_def Let_def semaphore_take_def semaphore_give_def)
qed

text \<open>
  C3. \<^verbatim>\<open>log_queue_deferred_message\<close> follows the submit algorithm. For a null format
  string it returns \<open>INVALID_ARGUMENT\<close> and the pool and the queue are as before. When the
  allocation of the computed size \<open>n\<close> fails, because the pool has no mutex, or the mutex
  is held while the call comes from an interrupt, or the comparison with the size of the
  arena fails, it returns \<open>NO_SPACE\<close>; watermark, arena and queue are as before. When the
  capture step has written 0 bytes, the statements behind it free the allocated message,
  which lies on top of the pool, so that the watermark is back at the offset of the message,
  and return \<open>IO_ERROR\<close>. Otherwise the message is enqueued and the status of the enqueue
  is returned: with the arguments captured, the message lies in the arena at the old
  watermark with its header fields, the size \<open>n\<close> and the \<open>n\<close> bytes of the arguments,
  the watermark is behind it, nothing else in the arena has changed; the status is \<open>OK\<close>
  with the handle appended behind the waiting ones when the queue has room, \<open>NO_SPACE\<close>
  when it is full and \<open>IO_ERROR\<close> when the queue was not created, the queue then being as
  before.
\<close>

theorem deferred_message_outcome:
  "log_queue_deferred_message A isr mn fn lvl None args s = Inr (INVALID_ARGUMENT, s)
   \<and> (log_format_calculate_buffer_size A (Some f) = Inr n
        \<and> (\<not> mutex_created (pool_state s) \<or> (isr \<and> mutex_taken (pool_state s))
            \<or> LOG_BUFFER_SIZE_BYTES < used (pool_state s) + LOG_MSG_SIZE A (of_nat n))
      \<longrightarrow> (\<exists>s'. log_queue_deferred_message A isr mn fn lvl (Some (a, f)) args s = Inr (NO_SPACE, s')
              \<and> used (pool_state s') = used (pool_state s)
              \<and> arena (pool_state s') = arena (pool_state s)
              \<and> mutex_created (pool_state s') = mutex_created (pool_state s)
              \<and> queue_state s' = queue_state s))
   \<and> (mutex_created p \<and> \<not> (isr \<and> mutex_taken p)
        \<and> in_arena (unat msg + offsetof_args_buffer_size A) 4
        \<and> msg + LOG_MSG_SIZE A (load_size_t (arena p) (unat msg + offsetof_args_buffer_size A)) = used p
      \<longrightarrow> after_capture A isr msg 0 p s
            = Inr (IO_ERROR, s\<lparr>pool_state := p\<lparr>mutex_taken := False, used := msg\<rparr>\<rparr>))
   \<and> (0 < written
      \<longrightarrow> after_capture A isr msg written p s
            = Inr (if \<not> queue_created (queue_state s) then IO_ERROR
                   else if length (items (queue_state s)) < LOG_QUEUE_SIZE then OK
                   else NO_SPACE,
                   s\<lparr>pool_state := p,
                     queue_state :=
                       if queue_created (queue_state s) \<and> length (items (queue_state s)) < LOG_QUEUE_SIZE
                       then (queue_state s)\<lparr>items := items (queue_state s) @ [msg]\<rparr>
                       else queue_state s\<rparr>))
   \<and> (log_format_calculate_buffer_size A (Some f) = Inr n
        \<and> n \<le> length (va_start A args)
        \<and> mutex_created (pool_state s) \<and> \<not> (isr \<and> mutex_taken (pool_state s))
        \<and> unat (used (pool_state s)) + sizeof_log_msg A + n \<le> 1024
        \<and> header_layout A
      \<longrightarrow> (\<exists>s'. log_queue_deferred_message A isr mn fn lvl (Some (a, f)) args s
                   = Inr (if \<not> queue_created (queue_state s) then IO_ERROR
                          else if length (items (queue_state s)) < LOG_QUEUE_SIZE then OK
                          else NO_SPACE, s')
              \<and> queue_state s' =
                  (if queue_created (queue_state s) \<and> length (items (queue_state s)) < LOG_QUEUE_SIZE
                   then (queue_state s)\<lparr>items := items (queue_state s) @ [used (pool_state s)]\<rparr>
                   else queue_state s)
              \<and> mutex_created (pool_state s') \<and> \<not> mutex_taken (pool_state s')
              \<and> used (pool_state s') = used (pool_state s) + of_nat (sizeof_log_msg A + n)
              \<and> message_at A (arena (pool_state s')) (unat (used (pool_state s))) mn fn lvl a
                   (take n (va_start A args))
              \<and> (\<forall>j. j < unat (used (pool_state s))
                       \<or> unat (used (pool_state s)) + sizeof_log_msg A + n \<le> j
                     \<longrightarrow> arena (pool_state s') j = arena (pool_state s) j)))"
proof (intro conjI impI)
  show "log_queue_deferred_message A isr mn fn lvl None args s = Inr (INVALID_ARGUMENT, s)"
    by (simp add: log_queue_deferred_message_def)
next
  assume h: "log_format_calculate_buffer_size A (Some f) = Inr n
        \<and> (\<not> mutex_created (pool_state s) \<or> (isr \<and> mutex_taken (pool_state s))
            \<or> LOG_BUFFER_SIZE_BYTES < used (pool_state s) + LOG_MSG_SIZE A (of_nat n))"
  then obtain p' where "log_pool_alloc A isr (of_nat n) (pool_state s) = Inr (None, p')"
    using log_pool_alloc_fails [of "pool_state s" isr A "of_nat n"] by blast
  moreover from this have "used p' = used (pool_state s) \<and> arena p' = arena (pool_state s)
      \<and> mutex_created p' = mutex_created (pool_state s)"
    by (rule log_pool_alloc_failure_frame)
  ultimately show "\<exists>s'. log_queue_deferred_message A isr mn fn lvl (Some (a, f)) args s = Inr (NO_SPACE, s')
              \<and> used (pool_state s') = used (pool_state s)
              \<and> arena (pool_state s') = arena (pool_state s)
              \<and> mutex_created (pool_state s') = mutex_created (pool_state s)
              \<and> queue_state s' = queue_state s"
    using h by (simp add: log_queue_deferred_message_def)
next
  assume "mutex_created p \<and> \<not> (isr \<and> mutex_taken p)
        \<and> in_arena (unat msg + offsetof_args_buffer_size A) 4
        \<and> msg + LOG_MSG_SIZE A (load_size_t (arena p) (unat msg + offsetof_args_buffer_size A)) = used p"
  then have "log_pool_free A isr (Some msg) p = Inr (p\<lparr>mutex_taken := False, used := msg\<rparr>)"
    by (intro log_pool_free_top) simp_all
  then show "after_capture A isr msg 0 p s
            = Inr (IO_ERROR, s\<lparr>pool_state := p\<lparr>mutex_taken := False, used := msg\<rparr>\<rparr>)"
    by (simp add: after_capture_def)
next
  assume "0 < written"
  then show "after_capture A isr msg written p s
            = Inr (if \<not> queue_created (queue_state s) then IO_ERROR
                   else if length (items (queue_state s)) < LOG_QUEUE_SIZE then OK
                   else NO_SPACE,
                   s\<lparr>pool_state := p,
                     queue_state :=
                       if queue_created (queue_state s) \<and> length (items (queue_state s)) < LOG_QUEUE_SIZE
                       then (queue_state s)\<lparr>items := items (queue_state s) @ [msg]\<rparr>
                       else queue_state s\<rparr>)"
    by (simp add: after_capture_def send_message_def log_queue_send_def queue_send_def)
next
  assume h: "log_format_calculate_buffer_size A (Some f) = Inr n
        \<and> n \<le> length (va_start A args)
        \<and> mutex_created (pool_state s) \<and> \<not> (isr \<and> mutex_taken (pool_state s))
        \<and> unat (used (pool_state s)) + sizeof_log_msg A + n \<le> 1024
        \<and> header_layout A"
  let ?b = "unat (used (pool_state s))"
  let ?ar = "message_stored A (arena (pool_state s)) ?b mn fn lvl a n (va_start A args)"
  let ?p = "(pool_state s)\<lparr>mutex_taken := False,
      used := used (pool_state s) + of_nat (sizeof_log_msg A + n), arena := ?ar\<rparr>"
  from h have run: "log_queue_deferred_message A isr mn fn lvl (Some (a, f)) args s
      = Inr (send_message isr (used (pool_state s)) ?p s)"
    by (intro deferred_message_accepted) simp_all
  from h have msg: "message_at A ?ar ?b mn fn lvl a (take n (va_start A args))"
    by (intro message_stored_holds) simp_all
  from h have frame: "\<forall>j. j < ?b \<or> ?b + sizeof_log_msg A + n \<le> j \<longrightarrow> ?ar j = arena (pool_state s) j"
    by (simp add: message_stored_frame)
  show "\<exists>s'. log_queue_deferred_message A isr mn fn lvl (Some (a, f)) args s
                   = Inr (if \<not> queue_created (queue_state s) then IO_ERROR
                          else if length (items (queue_state s)) < LOG_QUEUE_SIZE then OK
                          else NO_SPACE, s')
              \<and> queue_state s' =
                  (if queue_created (queue_state s) \<and> length (items (queue_state s)) < LOG_QUEUE_SIZE
                   then (queue_state s)\<lparr>items := items (queue_state s) @ [used (pool_state s)]\<rparr>
                   else queue_state s)
              \<and> mutex_created (pool_state s') \<and> \<not> mutex_taken (pool_state s')
              \<and> used (pool_state s') = used (pool_state s) + of_nat (sizeof_log_msg A + n)
              \<and> message_at A (arena (pool_state s')) (unat (used (pool_state s))) mn fn lvl a
                   (take n (va_start A args))
              \<and> (\<forall>j. j < unat (used (pool_state s))
                       \<or> unat (used (pool_state s)) + sizeof_log_msg A + n \<le> j
                     \<longrightarrow> arena (pool_state s') j = arena (pool_state s) j)"
    using run msg frame h
    by (simp add: send_message_def log_queue_send_def queue_send_def del: of_nat_add)
qed

theorem deferred_message_outcome_witness:
  "log_format_calculate_buffer_size ilp32 (Some ''x=%d y=%s'') = Inr 8
   \<and> 8 \<le> length (va_start ilp32 [(T_int, [42, 0, 0, 0]), (T_char_ptr, [0, 1, 0, 8])])
   \<and> mutex_created (pool_state ready_logger) \<and> \<not> mutex_taken (pool_state ready_logger)
   \<and> unat (used (pool_state ready_logger)) + sizeof_log_msg ilp32 + 8 \<le> 1024
   \<and> header_layout ilp32
   \<and> (\<exists>s'. log_queue_deferred_message ilp32 False 0x08001000 0x08001004 4
               (Some (0x08001008, ''x=%d y=%s'')) [(T_int, [42, 0, 0, 0]), (T_char_ptr, [0, 1, 0, 8])]
               ready_logger = Inr (OK, s')
          \<and> queue_state s' = \<lparr> queue_created = True, items = [0] \<rparr>
          \<and> used (pool_state s') = 28
          \<and> message_at ilp32 (arena (pool_state s')) 0 0x08001000 0x08001004 4 0x08001008
               [42, 0, 0, 0, 0, 1, 0, 8])
   \<and> (\<exists>s'. log_queue_deferred_message ilp32 False 0x08001000 0x08001004 4
               (Some (0x08001008, ''x=%d y=%s'')) [(T_int, [42, 0, 0, 0]), (T_char_ptr, [0, 1, 0, 8])]
               queueless_logger = Inr (IO_ERROR, s')
          \<and> queue_state s' = \<lparr> queue_created = False, items = [] \<rparr>
          \<and> used (pool_state s') = 28)
   \<and> \<not> mutex_created (pool_state boot_logger)
   \<and> (\<exists>s'. log_queue_deferred_message ilp32 False 0x08001000 0x08001004 4
               (Some (0x08001008, ''x=%d y=%s'')) [(T_int, [42, 0, 0, 0]), (T_char_ptr, [0, 1, 0, 8])]
               boot_logger = Inr (NO_SPACE, s')
          \<and> used (pool_state s') = 0 \<and> queue_state s' = queue_state boot_logger)
   \<and> LOG_BUFFER_SIZE_BYTES < 1000 + LOG_MSG_SIZE ilp32 (of_nat 8)
   \<and> (\<exists>s'. log_queue_deferred_message ilp32 False 0x08001000 0x08001004 4
               (Some (0x08001008, ''x=%d y=%s'')) [(T_int, [42, 0, 0, 0]), (T_char_ptr, [0, 1, 0, 8])]
               (ready_logger\<lparr>pool_state := ready_pool\<lparr>used := 1000\<rparr>\<rparr>) = Inr (NO_SPACE, s')
          \<and> used (pool_state s') = 1000 \<and> queue_state s' = queue_state ready_logger)
   \<and> in_arena (unat (0 :: size_t) + offsetof_args_buffer_size ilp32) 4
   \<and> 0 + LOG_MSG_SIZE ilp32 (load_size_t (store_bytes zero_memory 16 (encode 8))
                                 (unat (0 :: size_t) + offsetof_args_buffer_size ilp32)) = 28
   \<and> after_capture ilp32 False 0 0
        (ready_pool\<lparr>used := 28, arena := store_bytes zero_memory 16 (encode 8)\<rparr>) ready_logger
       = Inr (IO_ERROR,
              ready_logger\<lparr>pool_state := ready_pool\<lparr>used := 0, arena := store_bytes zero_memory 16 (encode 8)\<rparr>\<rparr>)
   \<and> after_capture ilp32 False 0 8
        (ready_pool\<lparr>used := 28, arena := store_bytes zero_memory 16 (encode 8)\<rparr>) ready_logger
       = Inr (OK,
              \<lparr> pool_state = ready_pool\<lparr>used := 28, arena := store_bytes zero_memory 16 (encode 8)\<rparr>,
                queue_state = \<lparr> queue_created = True, items = [0] \<rparr> \<rparr>)"
proof -
  let ?args = "[(T_int, [42, 0, 0, 0]), (T_char_ptr, [0, 1, 0, 8])] :: argument list"
  let ?full = "ready_logger\<lparr>pool_state := ready_pool\<lparr>used := 1000\<rparr>\<rparr>"
  let ?top = "ready_pool\<lparr>used := 28, arena := store_bytes zero_memory 16 (encode 8)\<rparr>"
  note defs = ready_logger_def queueless_logger_def boot_logger_def ready_pool_def boot_pool_def
    log_pool_init_def log_queue_init_def LOG_QUEUE_SIZE_def
  have size8: "log_format_calculate_buffer_size ilp32 (Some ''x=%d y=%s'') = Inr 8"
    by code_simp
  have area: "va_start ilp32 ?args = [42, 0, 0, 0, 0, 1, 0, 8]"
    by (simp add: va_start_def argument_bytes_def ilp32_def)
  have lay: "header_layout ilp32"
    by (simp add: header_layout_def ilp32_def)
  have H: "sizeof_log_msg ilp32 = 20" and off: "offsetof_args_buffer_size ilp32 = 16"
    by (simp_all add: ilp32_def)
  have guard: "LOG_BUFFER_SIZE_BYTES < 1000 + LOG_MSG_SIZE ilp32 (of_nat 8)"
    by (simp add: LOG_BUFFER_SIZE_BYTES_def LOG_MSG_SIZE_def ilp32_def)
  have inside: "in_arena (unat (0 :: size_t) + offsetof_args_buffer_size ilp32) 4"
    by (simp add: in_arena_def LOG_BUFFER_SIZE_BYTES_def ilp32_def)
  have top: "0 + LOG_MSG_SIZE ilp32 (load_size_t (store_bytes zero_memory 16 (encode 8))
                                 (unat (0 :: size_t) + offsetof_args_buffer_size ilp32)) = 28"
    by (simp add: off load_size_t_store_same LOG_MSG_SIZE_def ilp32_def)
  note outcome = deferred_message_outcome [where A = ilp32 and isr = False and mn = "0x08001000"
      and fn = "0x08001004" and lvl = 4 and a = "0x08001008" and f = "''x=%d y=%s''" and n = 8
      and args = ?args and p = ?top and msg = 0 and written = 8]
  have accepted: "\<exists>s'. log_queue_deferred_message ilp32 False 0x08001000 0x08001004 4
               (Some (0x08001008, ''x=%d y=%s'')) ?args ready_logger = Inr (OK, s')
          \<and> queue_state s' = \<lparr> queue_created = True, items = [0] \<rparr>
          \<and> used (pool_state s') = 28
          \<and> message_at ilp32 (arena (pool_state s')) 0 0x08001000 0x08001004 4 0x08001008
               [42, 0, 0, 0, 0, 1, 0, 8]"
    using outcome [where s = ready_logger] size8 area lay H
    by (auto simp: defs)
  have no_queue: "\<exists>s'. log_queue_deferred_message ilp32 False 0x08001000 0x08001004 4
               (Some (0x08001008, ''x=%d y=%s'')) ?args queueless_logger = Inr (IO_ERROR, s')
          \<and> queue_state s' = \<lparr> queue_created = False, items = [] \<rparr>
          \<and> used (pool_state s') = 28"
    using outcome [where s = queueless_logger] size8 area lay H
    by (auto simp: defs)
  have before: "\<exists>s'. log_queue_deferred_message ilp32 False 0x08001000 0x08001004 4
               (Some (0x08001008, ''x=%d y=%s'')) ?args boot_logger = Inr (NO_SPACE, s')
          \<and> used (pool_state s') = 0 \<and> queue_state s' = queue_state boot_logger"
    using outcome [where s = boot_logger] size8
    by (auto simp: defs)
  have full: "\<exists>s'. log_queue_deferred_message ilp32 False 0x08001000 0x08001004 4
               (Some (0x08001008, ''x=%d y=%s'')) ?args ?full = Inr (NO_SPACE, s')
          \<and> used (pool_state s') = 1000 \<and> queue_state s' = queue_state ready_logger"
    using outcome [where s = ?full] size8 guard
    by (auto simp: defs)
  have exit: "after_capture ilp32 False 0 0 ?top ready_logger
       = Inr (IO_ERROR,
              ready_logger\<lparr>pool_state := ready_pool\<lparr>used := 0, arena := store_bytes zero_memory 16 (encode 8)\<rparr>\<rparr>)"
    using outcome [where s = ready_logger] inside top
    by (simp add: defs)
  have send: "after_capture ilp32 False 0 8 ?top ready_logger
       = Inr (OK, \<lparr> pool_state = ?top, queue_state = \<lparr> queue_created = True, items = [0] \<rparr> \<rparr>)"
    using outcome [where s = ready_logger]
    by (simp add: defs)
  from size8 area lay H guard inside top accepted no_queue before full exit send show ?thesis
    by (simp add: defs)
qed

subsection \<open>Submission before initialization\<close>

text \<open>
  C6, as claimed: every submission that arrives before \<^verbatim>\<open>log_init\<close> has run returns
  \<open>NOT_INITIALIZED\<close>. This fails: in the state the logger has before initialization,
  \<^verbatim>\<open>log_pool_alloc\<close> finds the mutex handle null and returns the null pointer, which
  \<^verbatim>\<open>log_queue_deferred_message\<close> reports as \<^verbatim>\<open>-ENOSPC\<close>, the status \<open>NO_SPACE\<close>.
\<close>

theorem submission_before_init_no_space:
  "log_queue_deferred_message ilp32 False 0x08001000 0x08001004 3 (Some (0x08001008, ''hello'')) []
     boot_logger = Inr (NO_SPACE, boot_logger)
   \<and> NO_SPACE \<noteq> NOT_INITIALIZED"
  by (simp add: log_queue_deferred_message_def log_format_calculate_buffer_size_def
      calculate_loop_Cons calculate_loop_Nil log_pool_alloc_def boot_logger_def boot_pool_def)

text \<open>
  C6, amended: a submission that arrives before the pool is initialized (its mutex
  handle is null) returns \<open>INVALID_ARGUMENT\<close> when the format string is null and
  \<open>NO_SPACE\<close> for every format string whose size the Analyzer computes; the pool and the
  queue stay as they were. No submission, in any state, returns \<open>NOT_INITIALIZED\<close>.
\<close>

theorem submission_before_init:
  "\<not> mutex_created (pool_state s) \<Longrightarrow>
     log_queue_deferred_message A isr mn fn lvl None args s = Inr (INVALID_ARGUMENT, s)
     \<and> (log_format_calculate_buffer_size A (Some f) = Inr n
          \<longrightarrow> log_queue_deferred_message A isr mn fn lvl (Some (a, f)) args s = Inr (NO_SPACE, s))
     \<and> (log_queue_deferred_message A isr mn fn lvl fmt args t = Inr (st, t')
          \<longrightarrow> st \<noteq> NOT_INITIALIZED)"
proof (intro conjI impI)
  assume boot: "\<not> mutex_created (pool_state s)"
  show "log_queue_deferred_message A isr mn fn lvl None args s = Inr (INVALID_ARGUMENT, s)"
    by (simp add: log_queue_deferred_message_def)
  show "log_queue_deferred_message A isr mn fn lvl (Some (a, f)) args s = Inr (NO_SPACE, s)"
    if "log_format_calculate_buffer_size A (Some f) = Inr n"
    using that boot by (simp add: log_queue_deferred_message_def log_pool_alloc_def)
next
  assume run: "log_queue_deferred_message A isr mn fn lvl fmt args t = Inr (st, t')"
  have send: "send_message isr msg p t = (NOT_INITIALIZED, t') \<Longrightarrow> False" for msg p
    by (auto simp: send_message_def log_queue_send_def queue_send_def
        split: prod.splits if_splits)
  from run show "st \<noteq> NOT_INITIALIZED"
    by (auto simp: log_queue_deferred_message_def after_capture_def Let_def dest: send
        split: if_splits sum.splits prod.splits option.splits)
qed

theorem submission_before_init_witness:
  "\<not> mutex_created (pool_state boot_logger)
   \<and> log_format_calculate_buffer_size ilp32 (Some ''x=%d y=%s'') = Inr 8
   \<and> log_queue_deferred_message ilp32 True 0x08001000 0x08001004 4 None [] boot_logger
       = Inr (INVALID_ARGUMENT, boot_logger)
   \<and> log_queue_deferred_message ilp32 True 0x08001000 0x08001004 4 (Some (0x08001008, ''x=%d y=%s''))
         [(T_int, [42, 0, 0, 0]), (T_char_ptr, [0, 1, 0, 8])] boot_logger
       = Inr (NO_SPACE, boot_logger)"
proof -
  have b: "\<not> mutex_created (pool_state boot_logger)"
    by (simp add: boot_logger_def boot_pool_def)
  have size8: "log_format_calculate_buffer_size ilp32 (Some ''x=%d y=%s'') = Inr 8"
    by code_simp
  from submission_before_init [OF b, where A = ilp32 and isr = True and f = "''x=%d y=%s''"
      and n = 8 and mn = "0x08001000" and fn = "0x08001004" and lvl = 4 and a = "0x08001008"
      and args = "[(T_int, [42, 0, 0, 0]), (T_char_ptr, [0, 1, 0, 8])]"]
    b size8
  show ?thesis
    by (simp add: log_queue_deferred_message_def)
qed

section \<open>Sink Registry and fan-out (\<^verbatim>\<open>log_backend.c\<close>, \<^verbatim>\<open>log_queue.c\<close>)\<close>

text \<open>
  A backend (\<^verbatim>\<open>log_backend_t\<close>) lives in storage of the caller and is identified by its
  address. The registry is the pointer \<^verbatim>\<open>prv_inst.head\<close> together with the backends in
  memory, linked through their \<^verbatim>\<open>next\<close> fields. \<^verbatim>\<open>api.process_msg\<close> is a function
  pointer: \<open>None\<close> is the null pointer.
\<close>

record log_backend_t =
  process_msg :: "nat option"
  next' :: "nat option"

record registry =
  head :: "nat option"
  backends :: "nat \<Rightarrow> log_backend_t"

definition set_next :: "nat \<Rightarrow> nat option \<Rightarrow> registry \<Rightarrow> registry" where
  "set_next b v R = R\<lparr>backends := (backends R)(b := (backends R b)\<lparr>next' := v\<rparr>)\<rparr>"

text \<open>
  The loop of \<^verbatim>\<open>log_backend_register_backend\<close>: it walks to the node whose \<^verbatim>\<open>next\<close>
  is null, stores \<^verbatim>\<open>node->next = backend\<close> and then \<^verbatim>\<open>backend->next = NULL\<close>. On a
  cyclic list it does not return, which is the value \<open>None\<close>.
\<close>

partial_function (option) register_walk :: "nat \<Rightarrow> nat option \<Rightarrow> registry \<Rightarrow> registry option" where
  "register_walk backend node R =
     (case node of
        None \<Rightarrow> Some R
      | Some n \<Rightarrow>
          if next' (backends R n) = None
          then Some (set_next backend None (set_next n (Some backend) R))
          else register_walk backend (next' (backends R n)) R)"

definition log_backend_register_backend :: "nat option \<Rightarrow> registry \<Rightarrow> (status \<times> registry) option" where
  "log_backend_register_backend backend R =
     (case backend of
        None \<Rightarrow> Some (INVALID_ARGUMENT, R)
      | Some b \<Rightarrow>
          (let R1 = (if head R = None then set_next b None (R\<lparr>head := Some b\<rparr>) else R)
           in map_option (Pair OK) (register_walk b (head R1) R1)))"

definition log_backend_get_head :: "registry \<Rightarrow> nat option" where
  "log_backend_get_head R = head R"

text \<open>
  What \<^verbatim>\<open>log_queue_process_immediate\<close> does is recorded as a trace: \<open>Emit b msg\<close> is the
  call \<^verbatim>\<open>backend->api.process_msg(backend, msg)\<close> for the backend at address \<open>b\<close>,
  \<open>Pool_Free msg\<close> is the call \<^verbatim>\<open>log_pool_free(msg)\<close>. A sink receives the backend and the
  message through pointers to \<^verbatim>\<open>const\<close>; it does not change the registry. The result is
  the trace together with what the final \<^verbatim>\<open>log_pool_free\<close> makes of the pool.
\<close>

datatype event = Emit nat size_t | Pool_Free size_t

partial_function (option) process_walk :: "registry \<Rightarrow> size_t \<Rightarrow> nat option \<Rightarrow> event list \<Rightarrow> event list option" where
  "process_walk R msg backend trace =
     (case backend of
        None \<Rightarrow> Some trace
      | Some b \<Rightarrow>
          if process_msg (backends R b) = None
          then process_walk R msg (next' (backends R b)) trace
          else process_walk R msg (next' (backends R b)) (trace @ [Emit b msg]))"

definition log_queue_process_immediate ::
  "abi \<Rightarrow> bool \<Rightarrow> size_t option \<Rightarrow> registry \<Rightarrow> pool \<Rightarrow> ((error + pool) \<times> event list) option" where
  "log_queue_process_immediate A isr msg R p =
     (case msg of
        None \<Rightarrow> Some (Inr p, [])
      | Some m \<Rightarrow>
          (case process_walk R m (log_backend_get_head R) [] of
             None \<Rightarrow> None
           | Some trace \<Rightarrow> Some (log_pool_free A isr msg p, trace @ [Pool_Free m])))"

text \<open>
  Registering a list of sinks one after the other, every call returning 0, and the trace
  of a message processed after that.
\<close>

fun register_all :: "nat list \<Rightarrow> registry \<Rightarrow> registry option" where
  "register_all [] R = Some R"
| "register_all (b # bs) R =
     (case log_backend_register_backend (Some b) R of
        None \<Rightarrow> None
      | Some (st, R') \<Rightarrow> if st = OK then register_all bs R' else None)"

definition trace_after :: "abi \<Rightarrow> nat list \<Rightarrow> registry \<Rightarrow> size_t \<Rightarrow> pool \<Rightarrow> event list option" where
  "trace_after A bs R0 msg p =
     (case register_all bs R0 of
        None \<Rightarrow> None
      | Some R \<Rightarrow> map_option snd (log_queue_process_immediate A False (Some msg) R p))"

text \<open>The sinks of a registry in list order: the chain of \<^verbatim>\<open>next\<close> pointers from a node.\<close>

fun chain :: "(nat \<Rightarrow> log_backend_t) \<Rightarrow> nat option \<Rightarrow> nat list \<Rightarrow> bool" where
  "chain h p [] = (p = None)"
| "chain h p (b # bs) = (p = Some b \<and> chain h (next' (h b)) bs)"

definition emitting :: "registry \<Rightarrow> nat \<Rightarrow> bool" where
  "emitting R b = (process_msg (backends R b) \<noteq> None)"

text \<open>
  An empty registry for the examples: no sink is registered yet; of the backends in
  memory the one at address 2 has a null \<^verbatim>\<open>process_msg\<close>, all others have a callback.
\<close>

definition empty_registry :: registry where
  "empty_registry =
     \<lparr> head = None,
       backends = (\<lambda>b. \<lparr> process_msg = (if b = 2 then None else Some 7), next' = None \<rparr>) \<rparr>"

lemma register_walk_None: "register_walk b None R = Some R"
  by (simp add: register_walk.simps)

lemma register_walk_Some:
  "register_walk b (Some n) R =
     (if next' (backends R n) = None then Some (set_next b None (set_next n (Some b) R))
      else register_walk b (next' (backends R n)) R)"
  by (subst register_walk.simps) simp

lemma process_walk_None: "process_walk R msg None trace = Some trace"
  by (simp add: process_walk.simps)

lemma process_walk_Some:
  "process_walk R msg (Some b) trace =
     (if process_msg (backends R b) = None then process_walk R msg (next' (backends R b)) trace
      else process_walk R msg (next' (backends R b)) (trace @ [Emit b msg]))"
  by (subst process_walk.simps) simp

subsection \<open>Fan-out\<close>

lemma chain_update_other: "chain h p xs \<Longrightarrow> q \<notin> set xs \<Longrightarrow> chain (h(q := v)) p xs"
  by (induction xs arbitrary: p) auto

lemma chain_last_next: "chain h p xs \<Longrightarrow> xs \<noteq> [] \<Longrightarrow> next' (h (last xs)) = None"
  by (induction xs arbitrary: p) (auto split: if_splits)

lemma chain_append:
  assumes "chain h p xs" and "distinct xs" and "b \<notin> set xs" and "xs \<noteq> []"
  shows "chain (h(last xs := (h (last xs))\<lparr>next' := Some b\<rparr>, b := (h b)\<lparr>next' := None\<rparr>)) p (xs @ [b])"
  using assms
proof (induction xs arbitrary: p)
  case Nil
  then show ?case by simp
next
  case (Cons x xs)
  show ?case
  proof (cases xs)
    case Nil
    with Cons.prems show ?thesis by auto
  next
    case (Cons y ys)
    with Cons.prems have "chain h (next' (h x)) xs" "distinct xs" "b \<notin> set xs" "xs \<noteq> []"
      by auto
    from Cons.IH [OF this]
    have step: "chain (h(last xs := (h (last xs))\<lparr>next' := Some b\<rparr>, b := (h b)\<lparr>next' := None\<rparr>))
            (next' (h x)) (xs @ [b])" .
    define h' where "h' = h(last xs := (h (last xs))\<lparr>next' := Some b\<rparr>, b := (h b)\<lparr>next' := None\<rparr>)"
    from Cons Cons.prems have "x \<noteq> last xs" "x \<noteq> b" and l: "last (x # xs) = last xs"
      by auto
    then have same: "h' x = h x"
      by (simp add: h'_def)
    from Cons.prems have "p = Some x" by simp
    with step same have "chain h' p ((x # xs) @ [b])"
      by (simp add: h'_def)
    then show ?thesis
      unfolding h'_def l .
  qed
qed

lemma register_walk_last:
  "chain (backends R) (Some n) xs \<Longrightarrow>
     register_walk b (Some n) R = Some (set_next b None (set_next (last xs) (Some b) R))"
proof (induction xs arbitrary: n)
  case Nil
  then show ?case by simp
next
  case (Cons x xs)
  then have n: "n = x" and rest: "chain (backends R) (next' (backends R x)) xs"
    by auto
  show ?case
  proof (cases xs)
    case Nil
    with rest n show ?thesis
      by (simp add: register_walk_Some)
  next
    case (Cons y ys)
    with rest have nx: "next' (backends R x) = Some y" by simp
    with rest have "register_walk b (Some y) R = Some (set_next b None (set_next (last xs) (Some b) R))"
      using Cons.IH [of y] by simp
    with nx n Cons show ?thesis
      by (simp add: register_walk_Some)
  qed
qed

lemma register_backend_chain:
  assumes "chain (backends R) (head R) xs" and "distinct xs" and "b \<notin> set xs"
  shows "\<exists>R'. log_backend_register_backend (Some b) R = Some (OK, R')
           \<and> chain (backends R') (head R') (xs @ [b])
           \<and> (\<forall>x. process_msg (backends R' x) = process_msg (backends R x))"
proof (cases xs)
  case Nil
  with assms have "head R = None" by simp
  then show ?thesis
    using Nil
    by (simp add: log_backend_register_backend_def Let_def register_walk_Some set_next_def)
next
  case (Cons x xs')
  with assms obtain hd: "head R = Some x" by simp
  from assms(1) hd
  have walk: "register_walk b (Some x) R = Some (set_next b None (set_next (last xs) (Some b) R))"
    by (simp add: register_walk_last)
  have ne: "last xs \<noteq> b"
    using assms(3) Cons by (metis last_in_set list.distinct(1))
  have "chain ((backends R)(last xs := (backends R (last xs))\<lparr>next' := Some b\<rparr>,
                 b := (backends R b)\<lparr>next' := None\<rparr>)) (head R) (xs @ [b])"
    using assms Cons by (intro chain_append) auto
  with walk hd ne show ?thesis
    by (simp add: log_backend_register_backend_def Let_def set_next_def)
qed

lemma register_all_chain:
  "chain (backends R) (head R) xs \<Longrightarrow> distinct (xs @ bs) \<Longrightarrow>
     \<exists>R'. register_all bs R = Some R'
       \<and> chain (backends R') (head R') (xs @ bs)
       \<and> (\<forall>x. process_msg (backends R' x) = process_msg (backends R x))"
proof (induction bs arbitrary: R xs)
  case Nil
  then show ?case by simp
next
  case (Cons b bs)
  then have "distinct xs" and "b \<notin> set xs" by auto
  from register_backend_chain [OF Cons.prems(1) this]
  obtain R1 where r: "log_backend_register_backend (Some b) R = Some (OK, R1)"
    and c: "chain (backends R1) (head R1) (xs @ [b])"
    and p: "\<forall>x. process_msg (backends R1 x) = process_msg (backends R x)"
    by blast
  from Cons.prems have "distinct ((xs @ [b]) @ bs)" by simp
  from Cons.IH [OF c this] r p show ?case
    by auto
qed

text \<open>
  In every state of the registry whose list from \<open>p\<close> on is \<open>xs\<close>, the walk calls the
  sinks of \<open>xs\<close> that have a callback, once each and in list order.
\<close>

lemma process_walk_chain:
  "chain (backends R) p xs \<Longrightarrow>
     process_walk R msg p trace = Some (trace @ map (\<lambda>b. Emit b msg) (filter (emitting R) xs))"
proof (induction xs arbitrary: p trace)
  case Nil
  then show ?case by (simp add: process_walk_None)
next
  case (Cons x xs)
  then have p: "p = Some x" and rest: "chain (backends R) (next' (backends R x)) xs"
    by auto
  from Cons.IH [OF rest] p show ?case
    by (simp add: process_walk_Some emitting_def)
qed

text \<open>
  C9, as claimed: \<^verbatim>\<open>log_queue_process_immediate\<close> invokes the callback of every registered
  sink that has one. This fails when a sink is registered a second time: the walk of
  \<^verbatim>\<open>log_backend_register_backend\<close> hangs it behind the tail and then clears its \<^verbatim>\<open>next\<close>,
  which cuts off every sink registered after it. After registering the sinks at the
  addresses 1, 3 and 1 again, all three calls returning 0, a message is passed to sink 1
  only; sink 3 is registered, has a callback, and is not invoked.
\<close>

theorem fan_out_misses_sink:
  "trace_after ilp32 [1, 3, 1] empty_registry 0 ready_pool = Some [Emit 1 0, Pool_Free 0]
   \<and> emitting empty_registry 3"
  by (simp add: trace_after_def log_backend_register_backend_def register_walk_Some
      register_walk_None process_walk_None process_walk_Some set_next_def empty_registry_def
      log_queue_process_immediate_def log_backend_get_head_def Let_def emitting_def)

text \<open>
  C9, amended: for every dequeued message and every registry built from the empty one by
  registering pairwise distinct sinks, every registration succeeds and
  \<^verbatim>\<open>log_queue_process_immediate\<close> invokes the callback of every registered sink whose
  \<^verbatim>\<open>process_msg\<close> is non-null, in registration order, exactly once per sink, skips the
  sinks whose \<^verbatim>\<open>process_msg\<close> is null, and frees the message back to the pool after all
  sinks have been invoked.
\<close>

theorem fan_out_complete:
  assumes "head R0 = None" and "distinct bs"
  shows "\<exists>R. register_all bs R0 = Some R
           \<and> log_queue_process_immediate A isr (Some msg) R p
               = Some (log_pool_free A isr (Some msg) p,
                       map (\<lambda>b. Emit b msg) (filter (emitting R0) bs) @ [Pool_Free msg])"
proof -
  from assms have "chain (backends R0) (head R0) []" and "distinct ([] @ bs)"
    by simp_all
  from register_all_chain [OF this]
  obtain R where reg: "register_all bs R0 = Some R"
    and c: "chain (backends R) (head R) bs"
    and same: "\<forall>x. process_msg (backends R x) = process_msg (backends R0 x)"
    by auto
  from same have "emitting R = emitting R0"
    by (simp add: emitting_def fun_eq_iff)
  with process_walk_chain [OF c, of msg "[]"]
  have "process_walk R msg (head R) [] = Some (map (\<lambda>b. Emit b msg) (filter (emitting R0) bs))"
    by simp
  then have "log_queue_process_immediate A isr (Some msg) R p
      = Some (log_pool_free A isr (Some msg) p,
              map (\<lambda>b. Emit b msg) (filter (emitting R0) bs) @ [Pool_Free msg])"
    by (simp add: log_queue_process_immediate_def log_backend_get_head_def)
  with reg show ?thesis by blast
qed

theorem fan_out_complete_witness:
  "head empty_registry = None \<and> distinct [1, 2, 3 :: nat]
   \<and> (\<exists>R. register_all [1, 2, 3] empty_registry = Some R
         \<and> log_queue_process_immediate ilp32 False (Some 0) R ready_pool
             = Some (log_pool_free ilp32 False (Some 0) ready_pool,
                     [Emit 1 0, Emit 3 0, Pool_Free 0]))"
proof -
  have h: "head empty_registry = None" and d: "distinct [1, 2, 3 :: nat]"
    by (simp_all add: empty_registry_def)
  have "map (\<lambda>b. Emit b 0) (filter (emitting empty_registry) [1, 2, 3]) @ [Pool_Free 0]
          = [Emit 1 0, Emit 3 0, Pool_Free 0]"
    by (simp add: emitting_def empty_registry_def)
  with fan_out_complete [OF h d, of ilp32 False 0 ready_pool] h d show ?thesis
    by simp
qed


end
